theory Spec2Isabelle
  imports Main "HOL-Library.Sublist"
begin

section \<open>The Go library functions the code calls\<close>

text \<open>
  A Go string is a sequence of bytes: \<open>string\<close> here, a list of 8-bit characters. The
  functions of the packages \<^verbatim>\<open>strings\<close> and \<^verbatim>\<open>fmt\<close> that the code calls are written
  out as the Go library documents them, under their Go names.
\<close>

abbreviation dquote :: char where "dquote \<equiv> CHR 0x22"
abbreviation backslash :: char where "backslash \<equiv> CHR 0x5C"

text \<open>\<^verbatim>\<open>strings.Index\<close>: the position of the first occurrence, \<open>-1\<close> when there is none.\<close>

fun Index :: "string \<Rightarrow> string \<Rightarrow> int" where
  "Index [] substr = (if substr = [] then 0 else - 1)"
| "Index (c # s) substr =
     (if prefix substr (c # s) then 0
      else (let i = Index s substr in if i < 0 then - 1 else i + 1))"

text \<open>\<^verbatim>\<open>strings.LastIndex\<close>: the position of the last occurrence, \<open>-1\<close> when there is none.\<close>

definition LastIndex :: "string \<Rightarrow> string \<Rightarrow> int" where
  "LastIndex s substr =
     (let i = Index (rev s) (rev substr)
      in if i < 0 then - 1 else int (length s) - int (length substr) - i)"

definition Contains :: "string \<Rightarrow> string \<Rightarrow> bool" where
  "Contains s substr \<longleftrightarrow> Index s substr \<ge> 0"

definition HasPrefix :: "string \<Rightarrow> string \<Rightarrow> bool" where
  "HasPrefix s pre \<longleftrightarrow> prefix pre s"

definition HasSuffix :: "string \<Rightarrow> string \<Rightarrow> bool" where
  "HasSuffix s suf \<longleftrightarrow> suffix suf s"

definition TrimSuffix :: "string \<Rightarrow> string \<Rightarrow> string" where
  "TrimSuffix s suf = (if HasSuffix s suf then take (length s - length suf) s else s)"

text \<open>\<^verbatim>\<open>strings.Trim\<close> with a cutset of ASCII bytes: the bytes of the cutset are removed
  from both ends.\<close>

definition Trim :: "string \<Rightarrow> string \<Rightarrow> string" where
  "Trim s cutset =
     rev (dropWhile (\<lambda>c. c \<in> set cutset) (rev (dropWhile (\<lambda>c. c \<in> set cutset) s)))"

text \<open>The slice expressions \<^verbatim>\<open>s[i:]\<close> and \<^verbatim>\<open>s[i:j]\<close>, for \<open>0 \<le> i \<le> j \<le> len(s)\<close>; every
  slice of a text in the code is guarded so that its bounds are in this range.\<close>

definition sliceFrom :: "string \<Rightarrow> int \<Rightarrow> string" where
  "sliceFrom s i = drop (nat i) s"

definition slice :: "string \<Rightarrow> int \<Rightarrow> int \<Rightarrow> string" where
  "slice s i j = take (nat (j - i)) (drop (nat i) s)"

text \<open>
  White space as \<^verbatim>\<open>unicode.IsSpace\<close> and the scanner of \<^verbatim>\<open>fmt\<close> define it: six ASCII
  bytes, and the code points U+0085, U+00A0, U+1680, U+2000 to U+200A, U+2028, U+2029,
  U+202F, U+205F and U+3000, which a byte string holds in their UTF-8 encodings.
\<close>

definition asciiSpace :: "char \<Rightarrow> bool" where
  "asciiSpace c \<longleftrightarrow> c \<in> set [CHR 0x09, CHR 0x0A, CHR 0x0B, CHR 0x0C, CHR 0x0D, CHR 0x20]"

definition unicodeSpaces :: "string list" where
  "unicodeSpaces =
     [[CHR 0xC2, CHR 0x85], [CHR 0xC2, CHR 0xA0], [CHR 0xE1, CHR 0x9A, CHR 0x80],
      [CHR 0xE2, CHR 0x80, CHR 0x80], [CHR 0xE2, CHR 0x80, CHR 0x81],
      [CHR 0xE2, CHR 0x80, CHR 0x82], [CHR 0xE2, CHR 0x80, CHR 0x83],
      [CHR 0xE2, CHR 0x80, CHR 0x84], [CHR 0xE2, CHR 0x80, CHR 0x85],
      [CHR 0xE2, CHR 0x80, CHR 0x86], [CHR 0xE2, CHR 0x80, CHR 0x87],
      [CHR 0xE2, CHR 0x80, CHR 0x88], [CHR 0xE2, CHR 0x80, CHR 0x89],
      [CHR 0xE2, CHR 0x80, CHR 0x8A], [CHR 0xE2, CHR 0x80, CHR 0xA8],
      [CHR 0xE2, CHR 0x80, CHR 0xA9], [CHR 0xE2, CHR 0x80, CHR 0xAF],
      [CHR 0xE2, CHR 0x81, CHR 0x9F], [CHR 0xE3, CHR 0x80, CHR 0x80]]"

text \<open>The number of bytes of the white-space character a string starts with, or ends
  with; \<open>0\<close> when it starts, or ends, with none.\<close>

definition spaceWidth :: "string \<Rightarrow> nat" where
  "spaceWidth s =
     (case s of
        [] \<Rightarrow> 0
      | c # _ \<Rightarrow>
          if asciiSpace c then 1
          else (case find (\<lambda>u. prefix u s) unicodeSpaces of
                  Some u \<Rightarrow> length u
                | None \<Rightarrow> 0))"

definition spaceWidthLast :: "string \<Rightarrow> nat" where
  "spaceWidthLast s =
     (case rev s of
        [] \<Rightarrow> 0
      | c # _ \<Rightarrow>
          if asciiSpace c then 1
          else (case find (\<lambda>u. suffix u s) unicodeSpaces of
                  Some u \<Rightarrow> length u
                | None \<Rightarrow> 0))"

function TrimLeftSpace :: "string \<Rightarrow> string" where
  "TrimLeftSpace s = (if spaceWidth s = 0 then s else TrimLeftSpace (drop (spaceWidth s) s))"
  by pat_completeness auto
termination
  by (relation "measure length") (auto simp: spaceWidth_def split: list.splits)

function TrimRightSpace :: "string \<Rightarrow> string" where
  "TrimRightSpace s =
     (if spaceWidthLast s = 0 then s
      else TrimRightSpace (take (length s - spaceWidthLast s) s))"
  by pat_completeness auto
termination
  by (relation "measure length") (auto simp: spaceWidthLast_def split: list.splits)

declare TrimLeftSpace.simps [simp del]
declare TrimRightSpace.simps [simp del]

text \<open>\<^verbatim>\<open>strings.TrimSpace\<close>: all leading and trailing white space removed.\<close>

definition TrimSpace :: "string \<Rightarrow> string" where
  "TrimSpace s = TrimRightSpace (TrimLeftSpace s)"

text \<open>\<^verbatim>\<open>strings.Split\<close> with a separator of one byte, as in \<^verbatim>\<open>strings.Split(commit, "|")\<close>.\<close>

fun Split :: "string \<Rightarrow> char \<Rightarrow> string list" where
  "Split [] sep = [[]]"
| "Split (c # s) sep =
     (if c = sep then [] # Split s sep
      else (case Split s sep of
              p # ps \<Rightarrow> (c # p) # ps
            | [] \<Rightarrow> [[c]]))"

text \<open>\<^verbatim>\<open>strings.SplitN(s, sep, 2)\<close> with a separator of one byte: the text before the
  first separator and the text after it, or the string alone when it has no separator.\<close>

definition SplitN2 :: "string \<Rightarrow> char \<Rightarrow> string list" where
  "SplitN2 s sep =
     (if sep \<in> set s
      then [takeWhile (\<lambda>c. c \<noteq> sep) s, tl (dropWhile (\<lambda>c. c \<noteq> sep) s)]
      else [s])"

text \<open>
  \<^verbatim>\<open>fmt.Sscanf(value, "%d", &n)\<close> for an \<^verbatim>\<open>int\<close> of 64 bits. The scanner skips leading
  white space, where a newline is the error "unexpected newline"; it accepts one sign and
  then the longest run of decimal digits, which must not be empty; the token must fit in
  64 bits. \<open>Some n\<close>: \<open>n\<close> is stored. \<open>None\<close>: the scan fails and the target keeps its value.
  The text after the token is not read.
\<close>

function skipSpaceScan :: "string \<Rightarrow> string option" where
  "skipSpaceScan s =
     (case s of
        [] \<Rightarrow> Some []
      | c # _ \<Rightarrow>
          if c = CHR 0x0A then None
          else if spaceWidth s = 0 then Some s
          else skipSpaceScan (drop (spaceWidth s) s))"
  by pat_completeness auto
termination
  by (relation "measure length") (auto simp: spaceWidth_def split: list.splits)

declare skipSpaceScan.simps [simp del]

definition isDigit :: "char \<Rightarrow> bool" where
  "isDigit c \<longleftrightarrow> (48::nat) \<le> of_char c \<and> of_char c \<le> (57::nat)"

definition decimal :: "string \<Rightarrow> int" where
  "decimal ds = foldl (\<lambda>n c. 10 * n + (int (of_char c) - 48)) 0 ds"

definition Sscanf_d :: "string \<Rightarrow> int option" where
  "Sscanf_d value =
     (case skipSpaceScan value of
        None \<Rightarrow> None
      | Some s \<Rightarrow>
          (let negative = (s \<noteq> [] \<and> hd s = CHR ''-'');
               s' = (if s \<noteq> [] \<and> (hd s = CHR ''+'' \<or> hd s = CHR ''-'') then tl s else s);
               tok = takeWhile isDigit s'
           in if tok = [] then None
              else
                (let n = (if negative then - decimal tok else decimal tok)
                 in if - (2 ^ 63) \<le> n \<and> n \<le> 2 ^ 63 - 1 then Some n else None)))"

section \<open>Data model\<close>

text \<open>
  The Go struct \<^verbatim>\<open>CommitAnalysis\<close>. \<^verbatim>\<open>Confidence\<close> is a Go \<^verbatim>\<open>int\<close>; it is compared with
  \<^verbatim>\<open>>\<close> only and written by \<^verbatim>\<open>fmt.Sscanf\<close> only, which refuses values outside the
  64-bit range, so an \<open>int\<close> models it without wrap-around.
\<close>

record CommitAnalysis =
  CommitHash :: string
  CommitMsg :: string
  Author :: string
  Date :: string
  Explanation :: string
  IsLikely :: bool
  Confidence :: int

text \<open>
  The errors \<^verbatim>\<open>AnalyzeSingleCommit\<close> and \<^verbatim>\<open>AnalyzeBugInCommits\<close> return, one constructor
  for each \<^verbatim>\<open>fmt.Errorf\<close> of the source, \<open>ContextErr\<close> for \<^verbatim>\<open>ctx.Err()\<close>, and
  \<open>RuntimePanic\<close> for the run-time panic of the slice expression \<^verbatim>\<open>commitHash[:8]\<close> on
  a hash shorter than eight bytes (not an error value of the source: the goroutine dies).
\<close>

datatype error =
    InvalidCommitFormat
  | AnalysisError string
  | NoJSONResponse
  | NoCommitsAnalyzed
  | ContextErr
  | RuntimePanic

text \<open>The Go struct \<^verbatim>\<open>CommitAnalysisResult\<close>; a nil pointer or nil error is \<open>None\<close>.\<close>

record CommitAnalysisResult =
  Commit :: string
  Analysis :: "CommitAnalysis option"
  Error :: "error option"

text \<open>The Go struct \<^verbatim>\<open>Agent\<close>, without its logger; a text block of a message of the
  oracle's reply, or a block of another kind.\<close>

record Agent =
  systemPrompt :: string
  folder :: string

datatype block = TextBlock string | OtherBlock

type_synonym message = "block list"

section \<open>splitJSONPairs\<close>

text \<open>
  The loop of \<^verbatim>\<open>splitJSONPairs\<close> over the bytes still to read. \<open>prev\<close> is the byte before
  the current one, \<open>None\<close> at \<^verbatim>\<open>i == 0\<close>; \<open>current\<close> is the content of the builder.
\<close>

fun splitLoop :: "string \<Rightarrow> char option \<Rightarrow> bool \<Rightarrow> int \<Rightarrow> string \<Rightarrow> string list \<Rightarrow> string list" where
  "splitLoop [] prev inQuotes depth current pairs =
     (if length current > 0 then pairs @ [TrimSpace current] else pairs)"
| "splitLoop (char # rest) prev inQuotes depth current pairs =
     (if char = dquote then
        splitLoop rest (Some char)
          (if prev = None \<or> prev \<noteq> Some backslash then \<not> inQuotes else inQuotes)
          depth (current @ [char]) pairs
      else if char = CHR ''{'' \<or> char = CHR ''['' then
        splitLoop rest (Some char) inQuotes
          (if \<not> inQuotes then depth + 1 else depth) (current @ [char]) pairs
      else if char = CHR ''}'' \<or> char = CHR '']'' then
        splitLoop rest (Some char) inQuotes
          (if \<not> inQuotes then depth - 1 else depth) (current @ [char]) pairs
      else if char = CHR '','' then
        (if \<not> inQuotes \<and> depth = 0
         then splitLoop rest (Some char) inQuotes depth [] (pairs @ [TrimSpace current])
         else splitLoop rest (Some char) inQuotes depth (current @ [char]) pairs)
      else splitLoop rest (Some char) inQuotes depth (current @ [char]) pairs)"

definition splitJSONPairs :: "string \<Rightarrow> string list" where
  "splitJSONPairs jsonContent = splitLoop jsonContent None False 0 [] []"

section \<open>AnalyzeSingleCommit\<close>

text \<open>The prompt, \<^verbatim>\<open>fmt.Sprintf\<close> of the template with its seven strings.\<close>

definition buildPrompt :: "Agent \<Rightarrow> string \<Rightarrow> string \<Rightarrow> string \<Rightarrow> string \<Rightarrow> string \<Rightarrow> string" where
  "buildPrompt a commitHash commitAuthor commitDate commitMsg bugDescription =
     systemPrompt a @ ''\<newline>\<newline>Codebase location: '' @ folder a
       @ ''\<newline>\<newline>Commit to analyze:\<newline>- Hash: '' @ commitHash
       @ ''\<newline>- Author: '' @ commitAuthor
       @ ''\<newline>- Date: '' @ commitDate
       @ ''\<newline>- Message: '' @ commitMsg
       @ ''\<newline>\<newline>Bug description:\<newline>'' @ bugDescription"

text \<open>
  The body of the inner loop for one text block. \<open>Some j\<close>: \<^verbatim>\<open>jsonResponse\<close> is set to \<open>j\<close>
  and the loop over the blocks is left by \<^verbatim>\<open>break\<close>. \<open>None\<close>: nothing is assigned and the
  loop goes on to the next block.
\<close>

definition extractPayload :: "string \<Rightarrow> string option" where
  "extractPayload raw =
     (let text = TrimSpace raw;
          fenced =
            (if Contains text ''```json'' then
               (let start = Index text ''```json'';
                    end' = Index (sliceFrom text (start + 7)) ''```''
                in if start \<ge> 0 \<and> end' > 0
                   then Some (TrimSpace (slice text (start + 7) (start + 7 + end')))
                   else None)
             else None)
      in case fenced of
           Some j \<Rightarrow> Some j
         | None \<Rightarrow>
             if HasPrefix text ''{'' \<and> HasSuffix text ''}'' then Some text
             else
               (let startIdx = Index text ''{'';
                    endIdx = LastIndex text ''}''
                in if startIdx \<ge> 0 \<and> endIdx > startIdx then
                     (let potentialJSON = TrimSpace (slice text startIdx (endIdx + 1))
                      in if HasPrefix potentialJSON ''{'' \<and> HasSuffix potentialJSON ''}''
                         then Some potentialJSON
                         else None)
                   else None))"

text \<open>
  The first strategy in the words of the specification, to compare \<open>extractPayload\<close>
  with: \<open>fencedBody t body\<close> holds when \<open>body\<close> is the content between the first opening
  fence labelled as JSON in \<open>t\<close> and the next closing fence.
\<close>

definition fencedBody :: "string \<Rightarrow> string \<Rightarrow> bool" where
  "fencedBody t body \<longleftrightarrow>
     (\<exists>pre post.
        t = pre @ ''```json'' @ body @ ''```'' @ post
        \<and> (\<forall>pre'. prefix (pre' @ ''```json'') t \<longrightarrow> length pre \<le> length pre')
        \<and> (\<forall>body'. prefix (body' @ ''```'') (body @ ''```'' @ post) \<longrightarrow> length body \<le> length body'))"

text \<open>The loop over the blocks of one message: the first text block that assigns
  \<^verbatim>\<open>jsonResponse\<close> ends it; a block that is not a text block is passed over.\<close>

fun scanBlocks :: "block list \<Rightarrow> string option" where
  "scanBlocks [] = None"
| "scanBlocks (TextBlock raw # blocks) =
     (case extractPayload raw of
        Some j \<Rightarrow> Some j
      | None \<Rightarrow> scanBlocks blocks)"
| "scanBlocks (OtherBlock # blocks) = scanBlocks blocks"

text \<open>The loop over the messages, which returns \<^verbatim>\<open>jsonResponse\<close>: it stops after the
  first message that leaves \<^verbatim>\<open>jsonResponse\<close> non-empty.\<close>

fun scanMessages :: "message list \<Rightarrow> string" where
  "scanMessages [] = []"
| "scanMessages (message # messages) =
     (case scanBlocks message of
        Some j \<Rightarrow> if j \<noteq> [] then j else scanMessages messages
      | None \<Rightarrow> scanMessages messages)"

text \<open>The key and the value of one pair, as the body of the loop over the pairs computes
  them; \<open>None\<close> when \<^verbatim>\<open>len(parts) != 2\<close> and the pair is passed over.\<close>

definition pairKeyValue :: "string \<Rightarrow> (string \<times> string) option" where
  "pairKeyValue pair =
     (case SplitN2 pair CHR '':'' of
        [p0, p1] \<Rightarrow>
          (let key = Trim (TrimSpace p0) [dquote];
               value = TrimSpace p1;
               value = TrimSuffix value '','';
               value = Trim value [dquote]
           in Some (key, value))
      | _ \<Rightarrow> None)"


text \<open>The \<^verbatim>\<open>switch key\<close> on one pair.\<close>

definition applyPair :: "CommitAnalysis \<Rightarrow> string \<Rightarrow> CommitAnalysis" where
  "applyPair analysis pair =
     (case pairKeyValue pair of
        None \<Rightarrow> analysis
      | Some (key, value) \<Rightarrow>
          if key = ''commit_hash'' then analysis\<lparr>CommitHash := value\<rparr>
          else if key = ''commit_message'' then analysis\<lparr>CommitMsg := value\<rparr>
          else if key = ''author'' then analysis\<lparr>Author := value\<rparr>
          else if key = ''date'' then analysis\<lparr>Date := value\<rparr>
          else if key = ''explanation'' then analysis\<lparr>Explanation := value\<rparr>
          else if key = ''is_likely'' then analysis\<lparr>IsLikely := (value = ''true'')\<rparr>
          else if key = ''confidence'' then
            (case Sscanf_d value of
               Some n \<Rightarrow> analysis\<lparr>Confidence := n\<rparr>
             | None \<Rightarrow> analysis)
          else analysis)"

text \<open>The zero value \<^verbatim>\<open>&CommitAnalysis{}\<close>, and the parsing of a located payload.\<close>

definition zeroAnalysis :: CommitAnalysis where
  "zeroAnalysis =
     \<lparr>CommitHash = [], CommitMsg = [], Author = [], Date = [], Explanation = [],
      IsLikely = False, Confidence = 0\<rparr>"

definition parseAnalysis :: "string \<Rightarrow> CommitAnalysis" where
  "parseAnalysis jsonResponse =
     (let jsonResponse = TrimSpace jsonResponse;
          jsonResponse = Trim jsonResponse ''{}'';
          pairs = splitJSONPairs jsonResponse
      in foldl applyPair zeroAnalysis pairs)"

text \<open>
  \<^verbatim>\<open>AnalyzeSingleCommit\<close>. The oracle \<^verbatim>\<open>claudecode.QueryWithRequest\<close> is a parameter: it
  answers a prompt with an error text or with messages.
\<close>

definition AnalyzeSingleCommit ::
    "Agent \<Rightarrow> (string \<Rightarrow> string + message list) \<Rightarrow> string \<Rightarrow> string \<Rightarrow> error + CommitAnalysis" where
  "AnalyzeSingleCommit a QueryWithRequest commit bugDescription =
     (let parts = Split commit CHR ''|''
      in if length parts < 4 then Inl InvalidCommitFormat
         else
           (let commitHash = parts ! 0;
                commitAuthor = parts ! 1;
                commitDate = parts ! 2;
                commitMsg = parts ! 3
            in if length commitHash < 8 then Inl RuntimePanic
               else
                 (case QueryWithRequest
                         (buildPrompt a commitHash commitAuthor commitDate commitMsg bugDescription) of
                    Inl err \<Rightarrow> Inl (AnalysisError err)
                  | Inr messages \<Rightarrow>
                      (let jsonResponse = scanMessages messages
                       in if jsonResponse = [] then Inl NoJSONResponse
                          else Inr (parseAnalysis jsonResponse)))))"

section \<open>AnalyzeBugInCommits: the coordinator's loop and the selection\<close>

text \<open>
  What one \<^verbatim>\<open>select\<close> of the drain loop yields: a result received from \<^verbatim>\<open>resultChan\<close>,
  or the closing of \<^verbatim>\<open>ctx.Done()\<close>.
\<close>

datatype event = Recv CommitAnalysisResult | CtxDone

text \<open>
  The body of \<^verbatim>\<open>case result := <-resultChan\<close>, after \<^verbatim>\<open>completed++\<close>: a result with an
  error is logged and skipped, a result with an analysis is appended.
\<close>

definition absorb :: "CommitAnalysis list \<Rightarrow> CommitAnalysisResult \<Rightarrow> CommitAnalysis list" where
  "absorb analyses result =
     (if Error result \<noteq> None then analyses
      else (case Analysis result of
              Some analysis \<Rightarrow> analyses @ [analysis]
            | None \<Rightarrow> analyses))"

text \<open>
  The loop \<^verbatim>\<open>for completed < totalCommits { select { ... } }\<close> over the sequence of events
  the \<^verbatim>\<open>select\<close> statements yield. \<open>None\<close>: the events are used up while the loop still
  waits, so the function never returns. \<open>Some (Inl ContextErr)\<close>: the early
  \<^verbatim>\<open>return nil, ctx.Err()\<close>. \<open>Some (Inr analyses)\<close>: the loop ends with these verdicts.
\<close>

fun drain :: "nat \<Rightarrow> nat \<Rightarrow> CommitAnalysis list \<Rightarrow> event list
    \<Rightarrow> (error + CommitAnalysis list) option" where
  "drain totalCommits completed analyses [] =
     (if completed < totalCommits then None else Some (Inr analyses))"
| "drain totalCommits completed analyses (ev # events) =
     (if completed < totalCommits then
        (case ev of
           Recv result \<Rightarrow> drain totalCommits (completed + 1) (absorb analyses result) events
         | CtxDone \<Rightarrow> Some (Inl ContextErr))
      else Some (Inr analyses))"

text \<open>The first selection loop: only verdicts with \<^verbatim>\<open>IsLikely\<close>, replaced on a strictly
  greater confidence.\<close>

fun likelyLoop :: "CommitAnalysis option \<Rightarrow> CommitAnalysis list \<Rightarrow> CommitAnalysis option" where
  "likelyLoop bestMatch [] = bestMatch"
| "likelyLoop bestMatch (analysis # rest) =
     likelyLoop
       (if IsLikely analysis then
          (case bestMatch of
             None \<Rightarrow> Some analysis
           | Some b \<Rightarrow> if Confidence analysis > Confidence b then Some analysis else bestMatch)
        else bestMatch)
       rest"

text \<open>The second selection loop, entered when the first left \<^verbatim>\<open>bestMatch\<close> nil: every
  verdict, replaced on a strictly greater confidence.\<close>

fun fallbackLoop :: "CommitAnalysis option \<Rightarrow> CommitAnalysis list \<Rightarrow> CommitAnalysis option" where
  "fallbackLoop bestMatch [] = bestMatch"
| "fallbackLoop bestMatch (analysis # rest) =
     fallbackLoop
       (case bestMatch of
          None \<Rightarrow> Some analysis
        | Some b \<Rightarrow> if Confidence analysis > Confidence b then Some analysis else bestMatch)
       rest"

text \<open>
  The code after the drain loop: the check \<^verbatim>\<open>len(analyses) == 0\<close>, the two selection loops,
  and the return. The final \<^verbatim>\<open>bestMatch.CommitHash\<close> of the log line dereferences
  \<^verbatim>\<open>bestMatch\<close>: a nil pointer there would be a panic.
\<close>

definition selectBest :: "CommitAnalysis list \<Rightarrow> error + CommitAnalysis" where
  "selectBest analyses =
     (if length analyses = 0 then Inl NoCommitsAnalyzed
      else
        (let bestMatch = likelyLoop None analyses;
             bestMatch = (if bestMatch = None then fallbackLoop None analyses else bestMatch)
         in case bestMatch of
              None \<Rightarrow> Inl RuntimePanic
            | Some b \<Rightarrow> Inr b))"

text \<open>
  \<^verbatim>\<open>AnalyzeBugInCommits\<close> as the coordinator goroutine runs it: \<^verbatim>\<open>totalCommits\<close> is
  \<^verbatim>\<open>len(commits)\<close>, the events are what its \<^verbatim>\<open>select\<close> statements yield in order.
\<close>

definition AnalyzeBugInCommits :: "string list \<Rightarrow> event list \<Rightarrow> (error + CommitAnalysis) option" where
  "AnalyzeBugInCommits commits events =
     (case drain (length commits) 0 [] events of
        None \<Rightarrow> None
      | Some (Inl e) \<Rightarrow> Some (Inl e)
      | Some (Inr analyses) \<Rightarrow> Some (selectBest analyses))"

section \<open>AnalyzeBugInCommits: the goroutines, the channel and the coordinator\<close>

text \<open>
  The concurrent run of \<^verbatim>\<open>AnalyzeBugInCommits\<close> as a transition system. One goroutine is
  started for each index of \<^verbatim>\<open>commits\<close>; \<open>task i c\<close> is what \<^verbatim>\<open>AnalyzeSingleCommit\<close>
  returns in goroutine \<open>i\<close> on commit \<open>c\<close>, with \<open>Inl RuntimePanic\<close> for a call that panics.
  A goroutine builds its \<^verbatim>\<open>CommitAnalysisResult\<close> and sends it once on \<^verbatim>\<open>resultChan\<close>, a
  channel with a buffer of \<^verbatim>\<open>totalCommits\<close> places.
\<close>

definition toResult :: "string \<Rightarrow> error + CommitAnalysis \<Rightarrow> CommitAnalysisResult" where
  "toResult c r =
     \<lparr>Commit = c,
      Analysis = (case r of Inl err \<Rightarrow> None | Inr analysis \<Rightarrow> Some analysis),
      Error = (case r of Inl err \<Rightarrow> Some err | Inr analysis \<Rightarrow> None)\<rparr>"

text \<open>Where the coordinator stands: in the drain loop, past it and about to select, or
  returned.\<close>

datatype phase = Draining | Selecting | Returned "error + CommitAnalysis"

text \<open>
  The state of a run. \<open>pending\<close>: the goroutines that have not sent yet. \<open>resultChan\<close>:
  the buffer of the channel, oldest first. \<open>observed\<close>: the results the coordinator has
  received, in arrival order. Each result is kept with the index of the goroutine that
  sent it; the index is not in the program and serves to tell the outcomes of two equal
  commit strings apart. \<open>co_completed\<close> and \<open>co_analyses\<close> are the coordinator's
  variables \<^verbatim>\<open>completed\<close> and \<^verbatim>\<open>analyses\<close>, \<open>co_phase\<close> is where it stands.
\<close>

record fanout =
  pending :: "nat set"
  resultChan :: "(nat \<times> CommitAnalysisResult) list"
  observed :: "(nat \<times> CommitAnalysisResult) list"
  co_completed :: nat
  co_analyses :: "CommitAnalysis list"
  co_phase :: phase
  crashed :: bool

definition initial :: "string list \<Rightarrow> fanout" where
  "initial commits =
     \<lparr>pending = {0..<length commits}, resultChan = [], observed = [], co_completed = 0,
      co_analyses = [], co_phase = Draining, crashed = False\<rparr>"

text \<open>
  The steps. \<open>send\<close>: a goroutine whose call returned sends its result, which needs a free
  place in the buffer. \<open>panic\<close>: a goroutine whose call panics ends the process. \<open>recv\<close>:
  the \<^verbatim>\<open>select\<close> takes the oldest result of the channel. \<open>cancel\<close>: the \<^verbatim>\<open>select\<close> takes
  \<^verbatim>\<open>ctx.Done()\<close>, which may be closed at any moment. \<open>leave\<close>: the loop condition
  \<^verbatim>\<open>completed < totalCommits\<close> is false. \<open>choose\<close>: the code after the loop.
\<close>

inductive step :: "(nat \<Rightarrow> string \<Rightarrow> error + CommitAnalysis) \<Rightarrow> string list \<Rightarrow> fanout \<Rightarrow> fanout \<Rightarrow> bool"
  for task :: "nat \<Rightarrow> string \<Rightarrow> error + CommitAnalysis" and commits :: "string list" where
  send:
    "\<not> crashed s \<Longrightarrow> i \<in> pending s \<Longrightarrow> task i (commits ! i) \<noteq> Inl RuntimePanic \<Longrightarrow>
     length (resultChan s) < length commits \<Longrightarrow>
     step task commits s
       (s\<lparr>pending := pending s - {i},
          resultChan := resultChan s @ [(i, toResult (commits ! i) (task i (commits ! i)))]\<rparr>)"
| panic:
    "\<not> crashed s \<Longrightarrow> i \<in> pending s \<Longrightarrow> task i (commits ! i) = Inl RuntimePanic \<Longrightarrow>
     step task commits s (s\<lparr>crashed := True\<rparr>)"
| recv:
    "\<not> crashed s \<Longrightarrow> co_phase s = Draining \<Longrightarrow> co_completed s < length commits \<Longrightarrow>
     resultChan s = x # rest \<Longrightarrow>
     step task commits s
       (s\<lparr>resultChan := rest, observed := observed s @ [x], co_completed := co_completed s + 1,
          co_analyses := absorb (co_analyses s) (snd x)\<rparr>)"
| cancel:
    "\<not> crashed s \<Longrightarrow> co_phase s = Draining \<Longrightarrow> co_completed s < length commits \<Longrightarrow>
     step task commits s (s\<lparr>co_phase := Returned (Inl ContextErr)\<rparr>)"
| leave:
    "\<not> crashed s \<Longrightarrow> co_phase s = Draining \<Longrightarrow> \<not> co_completed s < length commits \<Longrightarrow>
     step task commits s (s\<lparr>co_phase := Selecting\<rparr>)"
| choose:
    "\<not> crashed s \<Longrightarrow> co_phase s = Selecting \<Longrightarrow>
     step task commits s (s\<lparr>co_phase := Returned (selectBest (co_analyses s))\<rparr>)"

inductive reachable :: "(nat \<Rightarrow> string \<Rightarrow> error + CommitAnalysis) \<Rightarrow> string list \<Rightarrow> fanout \<Rightarrow> bool"
  for task :: "nat \<Rightarrow> string \<Rightarrow> error + CommitAnalysis" and commits :: "string list" where
  reach_start: "reachable task commits (initial commits)"
| reach_step: "reachable task commits s \<Longrightarrow> step task commits s s' \<Longrightarrow> reachable task commits s'"

section \<open>Properties of the selection\<close>

lemma likelyLoop_None:
  "likelyLoop bestMatch analyses = None \<longleftrightarrow> bestMatch = None \<and> (\<forall>v \<in> set analyses. \<not> IsLikely v)"
  by (induction analyses arbitrary: bestMatch) (auto split: option.splits)

lemma fallbackLoop_None:
  "fallbackLoop bestMatch analyses = None \<longleftrightarrow> bestMatch = None \<and> analyses = []"
  by (induction analyses arbitrary: bestMatch) (auto split: option.splits)

lemma likelyLoop_pick:
  assumes "likelyLoop bestMatch analyses = Some r"
  shows "(bestMatch = Some r \<and> (\<forall>v \<in> set analyses. IsLikely v \<longrightarrow> Confidence v \<le> Confidence r))
       \<or> (\<exists>pre post. analyses = pre @ r # post \<and> IsLikely r
             \<and> (\<forall>b. bestMatch = Some b \<longrightarrow> Confidence b < Confidence r)
             \<and> (\<forall>v \<in> set pre. IsLikely v \<longrightarrow> Confidence v < Confidence r)
             \<and> (\<forall>v \<in> set post. IsLikely v \<longrightarrow> Confidence v \<le> Confidence r))"
  using assms
proof (induction analyses arbitrary: bestMatch)
  case Nil
  then show ?case by simp
next
  case (Cons x xs)
  let ?best' = "if IsLikely x then
          (case bestMatch of
             None \<Rightarrow> Some x
           | Some b \<Rightarrow> if Confidence x > Confidence b then Some x else bestMatch)
        else bestMatch"
  from Cons.prems have run: "likelyLoop ?best' xs = Some r" by simp
  have mono: "\<And>b b'. bestMatch = Some b \<Longrightarrow> ?best' = Some b' \<Longrightarrow> Confidence b \<le> Confidence b'"
    by (auto split: if_splits)
  have xle: "\<And>b'. IsLikely x \<Longrightarrow> ?best' = Some b' \<Longrightarrow> Confidence x \<le> Confidence b'"
    by (auto split: if_splits option.splits)
  from Cons.IH[OF run] show ?case
  proof
    assume keep: "?best' = Some r \<and> (\<forall>v \<in> set xs. IsLikely v \<longrightarrow> Confidence v \<le> Confidence r)"
    show ?thesis
    proof (cases "bestMatch = Some r")
      case True
      with keep xle show ?thesis by auto
    next
      case False
      with keep have "r = x" "IsLikely x" "\<forall>b. bestMatch = Some b \<longrightarrow> Confidence b < Confidence r"
        by (auto split: if_splits option.splits)
      with keep have "x # xs = [] @ r # xs \<and> IsLikely r
             \<and> (\<forall>b. bestMatch = Some b \<longrightarrow> Confidence b < Confidence r)
             \<and> (\<forall>v \<in> set []. IsLikely v \<longrightarrow> Confidence v < Confidence r)
             \<and> (\<forall>v \<in> set xs. IsLikely v \<longrightarrow> Confidence v \<le> Confidence r)" by simp
      then show ?thesis by blast
    qed
  next
    assume "\<exists>pre post. xs = pre @ r # post \<and> IsLikely r
             \<and> (\<forall>b. ?best' = Some b \<longrightarrow> Confidence b < Confidence r)
             \<and> (\<forall>v \<in> set pre. IsLikely v \<longrightarrow> Confidence v < Confidence r)
             \<and> (\<forall>v \<in> set post. IsLikely v \<longrightarrow> Confidence v \<le> Confidence r)"
    then obtain pre post where d: "xs = pre @ r # post" "IsLikely r"
        "\<forall>b. ?best' = Some b \<longrightarrow> Confidence b < Confidence r"
        "\<forall>v \<in> set pre. IsLikely v \<longrightarrow> Confidence v < Confidence r"
        "\<forall>v \<in> set post. IsLikely v \<longrightarrow> Confidence v \<le> Confidence r" by blast
    have b1: "\<forall>b. bestMatch = Some b \<longrightarrow> Confidence b < Confidence r"
      using d(3) by (auto split: if_splits)
    have b2: "IsLikely x \<longrightarrow> Confidence x < Confidence r"
      using d(3) by (auto split: if_splits option.splits)
    have "x # xs = (x # pre) @ r # post \<and> IsLikely r
             \<and> (\<forall>b. bestMatch = Some b \<longrightarrow> Confidence b < Confidence r)
             \<and> (\<forall>v \<in> set (x # pre). IsLikely v \<longrightarrow> Confidence v < Confidence r)
             \<and> (\<forall>v \<in> set post. IsLikely v \<longrightarrow> Confidence v \<le> Confidence r)"
      using d b1 b2 by simp
    then show ?thesis by blast
  qed
qed

lemma fallbackLoop_pick:
  assumes "fallbackLoop bestMatch analyses = Some r"
  shows "(bestMatch = Some r \<and> (\<forall>v \<in> set analyses. Confidence v \<le> Confidence r))
       \<or> (\<exists>pre post. analyses = pre @ r # post
             \<and> (\<forall>b. bestMatch = Some b \<longrightarrow> Confidence b < Confidence r)
             \<and> (\<forall>v \<in> set pre. Confidence v < Confidence r)
             \<and> (\<forall>v \<in> set post. Confidence v \<le> Confidence r))"
  using assms
proof (induction analyses arbitrary: bestMatch)
  case Nil
  then show ?case by simp
next
  case (Cons x xs)
  let ?best' = "case bestMatch of
             None \<Rightarrow> Some x
           | Some b \<Rightarrow> if Confidence x > Confidence b then Some x else bestMatch"
  from Cons.prems have run: "fallbackLoop ?best' xs = Some r" by simp
  have xle: "\<And>b'. ?best' = Some b' \<Longrightarrow> Confidence x \<le> Confidence b'"
    by (auto split: if_splits option.splits)
  from Cons.IH[OF run] show ?case
  proof
    assume keep: "?best' = Some r \<and> (\<forall>v \<in> set xs. Confidence v \<le> Confidence r)"
    show ?thesis
    proof (cases "bestMatch = Some r")
      case True
      with keep xle show ?thesis by auto
    next
      case False
      with keep have "r = x" "\<forall>b. bestMatch = Some b \<longrightarrow> Confidence b < Confidence r"
        by (auto split: if_splits option.splits)
      with keep have "x # xs = [] @ r # xs
             \<and> (\<forall>b. bestMatch = Some b \<longrightarrow> Confidence b < Confidence r)
             \<and> (\<forall>v \<in> set []. Confidence v < Confidence r)
             \<and> (\<forall>v \<in> set xs. Confidence v \<le> Confidence r)" by simp
      then show ?thesis by blast
    qed
  next
    assume "\<exists>pre post. xs = pre @ r # post
             \<and> (\<forall>b. ?best' = Some b \<longrightarrow> Confidence b < Confidence r)
             \<and> (\<forall>v \<in> set pre. Confidence v < Confidence r)
             \<and> (\<forall>v \<in> set post. Confidence v \<le> Confidence r)"
    then obtain pre post where d: "xs = pre @ r # post"
        "\<forall>b. ?best' = Some b \<longrightarrow> Confidence b < Confidence r"
        "\<forall>v \<in> set pre. Confidence v < Confidence r"
        "\<forall>v \<in> set post. Confidence v \<le> Confidence r" by blast
    have b1: "\<forall>b. bestMatch = Some b \<longrightarrow> Confidence b < Confidence r"
      using d(2) by (auto split: if_splits)
    have b2: "Confidence x < Confidence r"
      using d(2) by (auto split: if_splits option.splits)
    have "x # xs = (x # pre) @ r # post
             \<and> (\<forall>b. bestMatch = Some b \<longrightarrow> Confidence b < Confidence r)
             \<and> (\<forall>v \<in> set (x # pre). Confidence v < Confidence r)
             \<and> (\<forall>v \<in> set post. Confidence v \<le> Confidence r)"
      using d b1 b2 by simp
    then show ?thesis by blast
  qed
qed

lemma selectBest_likely:
  assumes "\<exists>v \<in> set analyses. IsLikely v"
  shows "\<exists>pre b post. selectBest analyses = Inr b \<and> analyses = pre @ b # post \<and> IsLikely b
           \<and> (\<forall>v \<in> set pre. IsLikely v \<longrightarrow> Confidence v < Confidence b)
           \<and> (\<forall>v \<in> set post. IsLikely v \<longrightarrow> Confidence v \<le> Confidence b)"
proof -
  from assms have ne: "analyses \<noteq> []" by auto
  from assms obtain r where r: "likelyLoop None analyses = Some r"
    using likelyLoop_None[of None analyses] by (cases "likelyLoop None analyses") auto
  from likelyLoop_pick[OF r] obtain pre post where "analyses = pre @ r # post" "IsLikely r"
     "\<forall>v \<in> set pre. IsLikely v \<longrightarrow> Confidence v < Confidence r"
     "\<forall>v \<in> set post. IsLikely v \<longrightarrow> Confidence v \<le> Confidence r" by auto
  moreover have "selectBest analyses = Inr r" using r ne by (simp add: selectBest_def)
  ultimately show ?thesis by blast
qed

lemma selectBest_fallback:
  assumes "analyses \<noteq> []" "\<forall>v \<in> set analyses. \<not> IsLikely v"
  shows "\<exists>pre b post. selectBest analyses = Inr b \<and> analyses = pre @ b # post
           \<and> (\<forall>v \<in> set pre. Confidence v < Confidence b)
           \<and> (\<forall>v \<in> set post. Confidence v \<le> Confidence b)"
proof -
  have l: "likelyLoop None analyses = None" using assms(2) by (simp add: likelyLoop_None)
  obtain r where r: "fallbackLoop None analyses = Some r"
    using fallbackLoop_None[of None analyses] assms(1) by (cases "fallbackLoop None analyses") auto
  from fallbackLoop_pick[OF r] obtain pre post where "analyses = pre @ r # post"
     "\<forall>v \<in> set pre. Confidence v < Confidence r"
     "\<forall>v \<in> set post. Confidence v \<le> Confidence r" by auto
  moreover have "selectBest analyses = Inr r" using r l assms(1) by (simp add: selectBest_def)
  ultimately show ?thesis by blast
qed

section \<open>The claims on AnalyzeBugInCommits\<close>

lemma drain_all_received:
  "drain (completed + length results) completed analyses (map Recv results @ later)
     = Some (Inr (foldl absorb analyses results))"
proof (induction results arbitrary: completed analyses)
  case Nil
  then show ?case by (cases later) simp_all
next
  case (Cons r rs)
  have "drain (completed + length (r # rs)) completed analyses (map Recv (r # rs) @ later)
        = drain (Suc completed + length rs) (Suc completed) (absorb analyses r) (map Recv rs @ later)"
    by simp
  then show ?case using Cons.IH[of "Suc completed" "absorb analyses r"] by simp
qed

text \<open>When \<^verbatim>\<open>ctx.Done()\<close> is selected before all outcomes are received, the loop
  returns \<^verbatim>\<open>ctx.Err()\<close>, whatever was collected.\<close>

lemma drain_cancelled:
  "completed + length results < totalCommits \<Longrightarrow>
   drain totalCommits completed analyses (map Recv results @ CtxDone # later) = Some (Inl ContextErr)"
proof (induction results arbitrary: completed analyses)
  case Nil
  then show ?case by simp
next
  case (Cons r rs)
  from Cons.prems have "Suc completed + length rs < totalCommits" by simp
  from Cons.IH[OF this] Cons.prems show ?case by simp
qed

text \<open>
  C1. When the drain loop ends with the collected verdicts \<open>analyses\<close> and one of them has
  \<^verbatim>\<open>IsLikely\<close>, \<^verbatim>\<open>AnalyzeBugInCommits\<close> returns a verdict \<open>b\<close> of the collection with
  \<^verbatim>\<open>IsLikely\<close>; no likely verdict has a greater confidence, and every likely verdict that
  arrived before \<open>b\<close> has a strictly smaller one, so among likely verdicts of maximal
  confidence the first to arrive is kept.
\<close>

theorem likely_maximum_first_arrival:
  assumes "drain (length commits) 0 [] events = Some (Inr analyses)"
    and "\<exists>v \<in> set analyses. IsLikely v"
  shows "\<exists>pre b post. AnalyzeBugInCommits commits events = Some (Inr b)
           \<and> analyses = pre @ b # post \<and> IsLikely b
           \<and> (\<forall>v \<in> set pre. IsLikely v \<longrightarrow> Confidence v < Confidence b)
           \<and> (\<forall>v \<in> set post. IsLikely v \<longrightarrow> Confidence v \<le> Confidence b)"
  using selectBest_likely[OF assms(2)] assms(1) by (simp add: AnalyzeBugInCommits_def)

theorem likely_maximum_first_arrival_witness:
  "(\<exists>pre b post.
      AnalyzeBugInCommits [''c1'', ''c2'', ''c3'', ''c4'']
        [Recv \<lparr>Commit = ''c3'', Analysis = Some (zeroAnalysis\<lparr>CommitHash := ''h3'', Confidence := 90\<rparr>), Error = None\<rparr>,
         Recv \<lparr>Commit = ''c1'', Analysis = Some (zeroAnalysis\<lparr>CommitHash := ''h1'', IsLikely := True, Confidence := 70\<rparr>), Error = None\<rparr>,
         Recv \<lparr>Commit = ''c4'', Analysis = None, Error = Some NoJSONResponse\<rparr>,
         Recv \<lparr>Commit = ''c2'', Analysis = Some (zeroAnalysis\<lparr>CommitHash := ''h2'', IsLikely := True, Confidence := 70\<rparr>), Error = None\<rparr>]
        = Some (Inr b)
      \<and> [zeroAnalysis\<lparr>CommitHash := ''h3'', Confidence := 90\<rparr>,
          zeroAnalysis\<lparr>CommitHash := ''h1'', IsLikely := True, Confidence := 70\<rparr>,
          zeroAnalysis\<lparr>CommitHash := ''h2'', IsLikely := True, Confidence := 70\<rparr>] = pre @ b # post
      \<and> IsLikely b
      \<and> (\<forall>v \<in> set pre. IsLikely v \<longrightarrow> Confidence v < Confidence b)
      \<and> (\<forall>v \<in> set post. IsLikely v \<longrightarrow> Confidence v \<le> Confidence b))"
  by (rule likely_maximum_first_arrival) (simp_all add: absorb_def zeroAnalysis_def)

text \<open>
  C2. When the drain loop ends with a non-empty collection \<open>analyses\<close> in which no verdict
  has \<^verbatim>\<open>IsLikely\<close>, \<^verbatim>\<open>AnalyzeBugInCommits\<close> returns a verdict of the collection whose
  confidence no collected verdict exceeds, whatever the flags.
\<close>

theorem fallback_highest_confidence:
  assumes "drain (length commits) 0 [] events = Some (Inr analyses)"
    and "analyses \<noteq> []"
    and "\<forall>v \<in> set analyses. \<not> IsLikely v"
  shows "\<exists>b. AnalyzeBugInCommits commits events = Some (Inr b) \<and> b \<in> set analyses
           \<and> (\<forall>v \<in> set analyses. Confidence v \<le> Confidence b)"
proof -
  from selectBest_fallback[OF assms(2,3)] obtain pre b post where
    b: "selectBest analyses = Inr b" "analyses = pre @ b # post"
       "\<forall>v \<in> set pre. Confidence v < Confidence b" "\<forall>v \<in> set post. Confidence v \<le> Confidence b"
    by blast
  have "AnalyzeBugInCommits commits events = Some (Inr b)"
    using assms(1) b(1) by (simp add: AnalyzeBugInCommits_def)
  moreover have "b \<in> set analyses" using b(2) by simp
  moreover have "\<forall>v \<in> set analyses. Confidence v \<le> Confidence b"
    using b(2,3,4) by (auto simp: less_imp_le)
  ultimately show ?thesis by blast
qed

theorem fallback_highest_confidence_witness:
  "\<exists>b. AnalyzeBugInCommits [''c1'', ''c2'']
          [Recv \<lparr>Commit = ''c2'', Analysis = Some (zeroAnalysis\<lparr>CommitHash := ''h2'', Confidence := 30\<rparr>), Error = None\<rparr>,
           Recv \<lparr>Commit = ''c1'', Analysis = Some (zeroAnalysis\<lparr>CommitHash := ''h1'', Confidence := 55\<rparr>), Error = None\<rparr>]
          = Some (Inr b)
        \<and> b \<in> set [zeroAnalysis\<lparr>CommitHash := ''h2'', Confidence := 30\<rparr>,
                    zeroAnalysis\<lparr>CommitHash := ''h1'', Confidence := 55\<rparr>]
        \<and> (\<forall>v \<in> set [zeroAnalysis\<lparr>CommitHash := ''h2'', Confidence := 30\<rparr>,
                        zeroAnalysis\<lparr>CommitHash := ''h1'', Confidence := 55\<rparr>].
              Confidence v \<le> Confidence b)"
  by (rule fallback_highest_confidence) (simp_all add: absorb_def zeroAnalysis_def)

text \<open>
  C10. In the fallback tier the first arrival wins a tie too: when the drain loop ends
  with a non-empty collection without any likely verdict, the verdict \<open>b\<close> returned is
  such that every verdict that arrived before it has a strictly smaller confidence, and
  none that arrived after it has a greater one.
\<close>

theorem fallback_tie_first_arrival:
  assumes "drain (length commits) 0 [] events = Some (Inr analyses)"
    and "analyses \<noteq> []"
    and "\<forall>v \<in> set analyses. \<not> IsLikely v"
  shows "\<exists>pre b post. AnalyzeBugInCommits commits events = Some (Inr b)
           \<and> analyses = pre @ b # post
           \<and> (\<forall>v \<in> set pre. Confidence v < Confidence b)
           \<and> (\<forall>v \<in> set post. Confidence v \<le> Confidence b)"
  using selectBest_fallback[OF assms(2,3)] assms(1) by (simp add: AnalyzeBugInCommits_def)

theorem fallback_tie_first_arrival_witness:
  "\<exists>pre b post.
      AnalyzeBugInCommits [''c1'', ''c2'', ''c3'']
        [Recv \<lparr>Commit = ''c2'', Analysis = Some (zeroAnalysis\<lparr>CommitHash := ''h2'', Confidence := 10\<rparr>), Error = None\<rparr>,
         Recv \<lparr>Commit = ''c3'', Analysis = Some (zeroAnalysis\<lparr>CommitHash := ''h3'', Confidence := 40\<rparr>), Error = None\<rparr>,
         Recv \<lparr>Commit = ''c1'', Analysis = Some (zeroAnalysis\<lparr>CommitHash := ''h1'', Confidence := 40\<rparr>), Error = None\<rparr>]
        = Some (Inr b)
      \<and> [zeroAnalysis\<lparr>CommitHash := ''h2'', Confidence := 10\<rparr>,
          zeroAnalysis\<lparr>CommitHash := ''h3'', Confidence := 40\<rparr>,
          zeroAnalysis\<lparr>CommitHash := ''h1'', Confidence := 40\<rparr>] = pre @ b # post
      \<and> (\<forall>v \<in> set pre. Confidence v < Confidence b)
      \<and> (\<forall>v \<in> set post. Confidence v \<le> Confidence b)"
  by (rule fallback_tie_first_arrival) (simp_all add: absorb_def zeroAnalysis_def)

text \<open>
  C3, as stated, fails: with two commits, one verdict received and then \<^verbatim>\<open>ctx.Done()\<close>
  selected, one verdict is collected and the function returns the error \<^verbatim>\<open>ctx.Err()\<close>,
  which is not the error of an empty collection.
\<close>

theorem error_with_verdict_collected_counterexample:
  "absorb [] \<lparr>Commit = ''c1'', Analysis = Some (zeroAnalysis\<lparr>IsLikely := True, Confidence := 70\<rparr>), Error = None\<rparr>
     = [zeroAnalysis\<lparr>IsLikely := True, Confidence := 70\<rparr>]
   \<and> AnalyzeBugInCommits [''c1'', ''c2'']
        [Recv \<lparr>Commit = ''c1'', Analysis = Some (zeroAnalysis\<lparr>IsLikely := True, Confidence := 70\<rparr>), Error = None\<rparr>,
         CtxDone]
     = Some (Inl ContextErr)"
  by (simp add: AnalyzeBugInCommits_def absorb_def)

text \<open>
  C3, amended. When the drain loop ends without \<^verbatim>\<open>ctx.Done()\<close> having been selected,
  with the collected verdicts \<open>analyses\<close>, \<^verbatim>\<open>AnalyzeBugInCommits\<close> returns an error exactly
  when the collection is empty: then the error is "no commits could be analyzed", and
  otherwise the result is one of the collected verdicts and no error.
\<close>

theorem error_iff_nothing_collected:
  assumes "drain (length commits) 0 [] events = Some (Inr analyses)"
  shows "(analyses = [] \<and> AnalyzeBugInCommits commits events = Some (Inl NoCommitsAnalyzed))
       \<or> (analyses \<noteq> [] \<and> (\<exists>b \<in> set analyses. AnalyzeBugInCommits commits events = Some (Inr b)))"
proof (cases "analyses = []")
  case True
  then show ?thesis using assms by (simp add: AnalyzeBugInCommits_def selectBest_def)
next
  case False
  show ?thesis
  proof (cases "\<exists>v \<in> set analyses. IsLikely v")
    case True
    from selectBest_likely[OF True] show ?thesis
      using assms False by (auto simp: AnalyzeBugInCommits_def)
  next
    case False
    with selectBest_fallback[OF \<open>analyses \<noteq> []\<close>] show ?thesis
      using assms \<open>analyses \<noteq> []\<close> by (auto simp: AnalyzeBugInCommits_def)
  qed
qed

theorem error_iff_nothing_collected_witness:
  "((([]::CommitAnalysis list) = []
      \<and> AnalyzeBugInCommits [''c1'', ''c2'']
          [Recv \<lparr>Commit = ''c2'', Analysis = None, Error = Some NoJSONResponse\<rparr>,
           Recv \<lparr>Commit = ''c1'', Analysis = None, Error = Some (AnalysisError ''timeout'')\<rparr>]
          = Some (Inl NoCommitsAnalyzed))
    \<or> (([]::CommitAnalysis list) \<noteq> []
      \<and> (\<exists>b \<in> set []. AnalyzeBugInCommits [''c1'', ''c2'']
          [Recv \<lparr>Commit = ''c2'', Analysis = None, Error = Some NoJSONResponse\<rparr>,
           Recv \<lparr>Commit = ''c1'', Analysis = None, Error = Some (AnalysisError ''timeout'')\<rparr>]
          = Some (Inr b))))
   \<and> (([zeroAnalysis\<lparr>IsLikely := True, Confidence := 40\<rparr>] = []
      \<and> AnalyzeBugInCommits [''c1'', ''c2'', ''c3'']
          [Recv \<lparr>Commit = ''c2'', Analysis = None, Error = Some NoJSONResponse\<rparr>,
           Recv \<lparr>Commit = ''c3'', Analysis = Some (zeroAnalysis\<lparr>IsLikely := True, Confidence := 40\<rparr>), Error = None\<rparr>,
           Recv \<lparr>Commit = ''c1'', Analysis = None, Error = Some InvalidCommitFormat\<rparr>]
          = Some (Inl NoCommitsAnalyzed))
    \<or> ([zeroAnalysis\<lparr>IsLikely := True, Confidence := 40\<rparr>] \<noteq> []
      \<and> (\<exists>b \<in> set [zeroAnalysis\<lparr>IsLikely := True, Confidence := 40\<rparr>].
           AnalyzeBugInCommits [''c1'', ''c2'', ''c3'']
          [Recv \<lparr>Commit = ''c2'', Analysis = None, Error = Some NoJSONResponse\<rparr>,
           Recv \<lparr>Commit = ''c3'', Analysis = Some (zeroAnalysis\<lparr>IsLikely := True, Confidence := 40\<rparr>), Error = None\<rparr>,
           Recv \<lparr>Commit = ''c1'', Analysis = None, Error = Some InvalidCommitFormat\<rparr>]
          = Some (Inr b))))"
  by (rule conjI; rule error_iff_nothing_collected; simp add: absorb_def)

section \<open>The fan-out: one outcome for each commit\<close>

lemma reachable_invariants:
  assumes "reachable task commits s"
  shows "distinct (map fst (observed s @ resultChan s))
       \<and> pending s \<inter> fst ` set (observed s @ resultChan s) = {}
       \<and> pending s \<union> fst ` set (observed s @ resultChan s) = {0..<length commits}
       \<and> co_completed s = length (observed s)
       \<and> (\<forall>(i, r) \<in> set (observed s @ resultChan s). r = toResult (commits ! i) (task i (commits ! i)))
       \<and> co_analyses s = foldl absorb [] (map snd (observed s))
       \<and> (co_phase s \<noteq> Draining \<and> co_phase s \<noteq> Returned (Inl ContextErr)
            \<longrightarrow> length commits \<le> co_completed s)"
  using assms
proof (induction rule: reachable.induct)
  case reach_start
  then show ?case by (simp add: initial_def)
next
  case (reach_step s s')
  from reach_step.hyps(2) show ?case
  proof (cases rule: step.cases)
    case (send i)
    with reach_step.IH show ?thesis by auto
  next
    case (panic i)
    with reach_step.IH show ?thesis by auto
  next
    case (recv x rest)
    with reach_step.IH show ?thesis by auto
  next
    case cancel
    with reach_step.IH show ?thesis by auto
  next
    case leave
    with reach_step.IH show ?thesis by auto
  next
    case choose
    with reach_step.IH show ?thesis by auto
  qed
qed

lemma reachable_control:
  assumes "reachable task commits s"
  shows "(crashed s \<longrightarrow> commits \<noteq> [])
       \<and> (\<forall>r. co_phase s = Returned r \<longrightarrow>
             (r = Inl ContextErr \<and> commits \<noteq> []) \<or> r = selectBest (co_analyses s))"
  using assms
proof (induction rule: reachable.induct)
  case reach_start
  then show ?case by (simp add: initial_def)
next
  case (reach_step s s')
  have pend: "pending s \<subseteq> {0..<length commits}"
    using reachable_invariants[OF reach_step.hyps(1)] by blast
  from reach_step.hyps(2) show ?case
  proof (cases rule: step.cases)
    case (panic i)
    with pend have "commits \<noteq> []" by auto
    with panic reach_step.IH show ?thesis by auto
  qed (use reach_step.IH in auto)
qed

lemma all_observed:
  assumes "reachable task commits s"
    and "length commits \<le> co_completed s"
  shows "length (observed s) = length commits
       \<and> fst ` set (observed s) = {0..<length commits}
       \<and> resultChan s = [] \<and> pending s = {}"
proof -
  note inv = reachable_invariants[OF assms(1)]
  from inv have d: "distinct (map fst (observed s))" by simp
  from inv have sub: "fst ` set (observed s) \<subseteq> {0..<length commits}" by auto
  have "length (observed s) = card (fst ` set (observed s))"
    using distinct_card[OF d] by simp
  also have "\<dots> \<le> card {0..<length commits}" by (rule card_mono[OF _ sub]) simp
  finally have le: "length (observed s) \<le> length commits" by simp
  with assms(2) inv have len: "length (observed s) = length commits" by simp
  have "card (fst ` set (observed s)) = card {0..<length commits}"
    using distinct_card[OF d] len by simp
  with sub have eq: "fst ` set (observed s) = {0..<length commits}"
    by (intro card_subset_eq) simp_all
  from inv have "distinct (map fst (observed s) @ map fst (resultChan s))" by simp
  then have dis: "set (map fst (observed s)) \<inter> set (map fst (resultChan s)) = {}" by simp
  from inv have "set (map fst (resultChan s)) \<subseteq> {0..<length commits}" by auto
  with eq have "set (map fst (resultChan s)) \<subseteq> set (map fst (observed s))" by simp
  with dis have "set (map fst (resultChan s)) = {}" by (simp add: Int_absorb1)
  then have ch: "resultChan s = []" by simp
  from inv have pd: "pending s \<inter> fst ` set (observed s) = {}" by (simp add: Int_Un_distrib image_Un)
  from inv have "pending s \<subseteq> {0..<length commits}" by blast
  with eq have "pending s \<subseteq> fst ` set (observed s)" by simp
  with pd have "pending s = {}" by (simp add: Int_absorb2)
  with len eq ch show ?thesis by simp
qed

lemma returned_agrees:
  assumes "reachable task commits s" and "co_phase s = Returned r" and "r \<noteq> Inl ContextErr"
  shows "AnalyzeBugInCommits commits (map Recv (map snd (observed s))) = Some r"
proof -
  note inv = reachable_invariants[OF assms(1)]
  from inv assms(2,3) have "length commits \<le> co_completed s" by simp
  from all_observed[OF assms(1) this] have len: "length (map snd (observed s)) = length commits" by simp
  have "drain (0 + length (map snd (observed s))) 0 [] (map Recv (map snd (observed s)) @ [])
          = Some (Inr (foldl absorb [] (map snd (observed s))))"
    by (rule drain_all_received)
  with len inv have "drain (length commits) 0 [] (map Recv (map snd (observed s))) = Some (Inr (co_analyses s))"
    by simp
  moreover from reachable_control[OF assms(1)] assms(2,3) have "r = selectBest (co_analyses s)" by auto
  ultimately show ?thesis by (simp add: AnalyzeBugInCommits_def)
qed

text \<open>
  What the fan-out keeps in every state a run of \<^verbatim>\<open>AnalyzeBugInCommits\<close> on \<open>N\<close> commits can
  reach: no goroutine has two outcomes in the channel or with the coordinator; every
  dispatched commit is either still being analysed or has its outcome there; an outcome
  is the one its goroutine computed; and once the coordinator has left the drain loop for
  the selection, it has received exactly \<open>N\<close> outcomes, one for each commit, and the
  channel is empty. For \<open>N = 0\<close> the only step of the loop is to leave it and the only
  step after it is to return the error "no commits could be analyzed". This is a safety
  property: it does not say that a goroutine ever sends.
\<close>

theorem one_outcome_per_commit:
  assumes "reachable task commits s"
  shows "distinct (map fst (observed s @ resultChan s))
       \<and> pending s \<inter> fst ` set (observed s @ resultChan s) = {}
       \<and> pending s \<union> fst ` set (observed s @ resultChan s) = {0..<length commits}
       \<and> (\<forall>(i, r) \<in> set (observed s @ resultChan s). r = toResult (commits ! i) (task i (commits ! i)))
       \<and> (co_phase s \<noteq> Draining \<and> co_phase s \<noteq> Returned (Inl ContextErr) \<longrightarrow>
            length (observed s) = length commits
            \<and> fst ` set (observed s) = {0..<length commits}
            \<and> resultChan s = [] \<and> pending s = {}
            \<and> co_analyses s = foldl absorb [] (map snd (observed s)))
       \<and> (commits = [] \<longrightarrow>
            (co_phase s = Draining \<longrightarrow>
               (\<forall>s'. step task commits s s' \<longleftrightarrow> s' = s\<lparr>co_phase := Selecting\<rparr>))
            \<and> (co_phase s = Selecting \<longrightarrow>
               (\<forall>s'. step task commits s s' \<longleftrightarrow> s' = s\<lparr>co_phase := Returned (Inl NoCommitsAnalyzed)\<rparr>))
            \<and> (\<forall>r. co_phase s = Returned r \<longrightarrow> r = Inl NoCommitsAnalyzed)
            \<and> (\<forall>events. AnalyzeBugInCommits commits events = Some (Inl NoCommitsAnalyzed)))"
proof -
  note inv = reachable_invariants[OF assms]
  have sel: "co_phase s \<noteq> Draining \<and> co_phase s \<noteq> Returned (Inl ContextErr) \<longrightarrow>
            length (observed s) = length commits
            \<and> fst ` set (observed s) = {0..<length commits}
            \<and> resultChan s = [] \<and> pending s = {}
            \<and> co_analyses s = foldl absorb [] (map snd (observed s))"
    using inv all_observed[OF assms] by blast
  have zero: "commits = [] \<longrightarrow>
            (co_phase s = Draining \<longrightarrow>
               (\<forall>s'. step task commits s s' \<longleftrightarrow> s' = s\<lparr>co_phase := Selecting\<rparr>))
            \<and> (co_phase s = Selecting \<longrightarrow>
               (\<forall>s'. step task commits s s' \<longleftrightarrow> s' = s\<lparr>co_phase := Returned (Inl NoCommitsAnalyzed)\<rparr>))
            \<and> (\<forall>r. co_phase s = Returned r \<longrightarrow> r = Inl NoCommitsAnalyzed)
            \<and> (\<forall>events. AnalyzeBugInCommits commits events = Some (Inl NoCommitsAnalyzed))"
  proof
    assume e: "commits = []"
    from inv e have p: "pending s = {}" and o: "observed s = []" by auto
    from inv o have a: "co_analyses s = []" by simp
    from reachable_control[OF assms] e have c: "\<not> crashed s"
      and r: "\<forall>r. co_phase s = Returned r \<longrightarrow> r = selectBest (co_analyses s)" by auto
    have s0: "selectBest [] = Inl NoCommitsAnalyzed" by (simp add: selectBest_def)
    have d: "co_phase s = Draining \<longrightarrow>
               (\<forall>s'. step task commits s s' \<longleftrightarrow> s' = s\<lparr>co_phase := Selecting\<rparr>)"
      using e p c by (auto elim!: step.cases intro: step.leave)
    have g: "co_phase s = Selecting \<longrightarrow>
               (\<forall>s'. step task commits s s' \<longleftrightarrow> s' = s\<lparr>co_phase := Returned (Inl NoCommitsAnalyzed)\<rparr>)"
    proof
      assume ph: "co_phase s = Selecting"
      have "step task commits s (s\<lparr>co_phase := Returned (selectBest (co_analyses s))\<rparr>)"
        using c ph by (rule step.choose)
      then show "\<forall>s'. step task commits s s' \<longleftrightarrow> s' = s\<lparr>co_phase := Returned (Inl NoCommitsAnalyzed)\<rparr>"
        using e p c ph a s0 by (auto elim!: step.cases)
    qed
    have f: "\<forall>events. AnalyzeBugInCommits commits events = Some (Inl NoCommitsAnalyzed)"
    proof
      fix events show "AnalyzeBugInCommits commits events = Some (Inl NoCommitsAnalyzed)"
        using e s0 by (cases events) (simp_all add: AnalyzeBugInCommits_def)
    qed
    from d g r a s0 f show "(co_phase s = Draining \<longrightarrow>
               (\<forall>s'. step task commits s s' \<longleftrightarrow> s' = s\<lparr>co_phase := Selecting\<rparr>))
            \<and> (co_phase s = Selecting \<longrightarrow>
               (\<forall>s'. step task commits s s' \<longleftrightarrow> s' = s\<lparr>co_phase := Returned (Inl NoCommitsAnalyzed)\<rparr>))
            \<and> (\<forall>r. co_phase s = Returned r \<longrightarrow> r = Inl NoCommitsAnalyzed)
            \<and> (\<forall>events. AnalyzeBugInCommits commits events = Some (Inl NoCommitsAnalyzed))"
      by simp
  qed
  from inv sel zero show ?thesis by blast
qed

lemma example_run_reachable:
  "reachable (\<lambda>i c. if i = 0 then Inr (zeroAnalysis\<lparr>Confidence := 40\<rparr>) else Inl NoJSONResponse)
     [''c0'', ''c1'']
     \<lparr>pending = {}, resultChan = [],
      observed = [(1, \<lparr>Commit = ''c1'', Analysis = None, Error = Some NoJSONResponse\<rparr>),
                  (0, \<lparr>Commit = ''c0'', Analysis = Some (zeroAnalysis\<lparr>Confidence := 40\<rparr>), Error = None\<rparr>)],
      co_completed = 2, co_analyses = [zeroAnalysis\<lparr>Confidence := 40\<rparr>],
      co_phase = Selecting, crashed = False\<rparr>"
  (is "reachable ?T ?C ?S")
proof -
  have r1: "reachable ?T ?C
     \<lparr>pending = {0}, resultChan = [(1, \<lparr>Commit = ''c1'', Analysis = None, Error = Some NoJSONResponse\<rparr>)],
      observed = [], co_completed = 0, co_analyses = [], co_phase = Draining, crashed = False\<rparr>"
    using reach_step[OF reach_start step.send[of "initial ?C" 1 ?T ?C]]
    by (simp add: initial_def toResult_def atLeast0_lessThan_Suc numeral_2_eq_2 insert_Diff_if)
  have r2: "reachable ?T ?C
     \<lparr>pending = {}, resultChan = [(1, \<lparr>Commit = ''c1'', Analysis = None, Error = Some NoJSONResponse\<rparr>),
                  (0, \<lparr>Commit = ''c0'', Analysis = Some (zeroAnalysis\<lparr>Confidence := 40\<rparr>), Error = None\<rparr>)],
      observed = [], co_completed = 0, co_analyses = [], co_phase = Draining, crashed = False\<rparr>"
    using reach_step[OF r1 step.send[of _ 0 ?T ?C]]
    by (simp add: toResult_def)
  have r3: "reachable ?T ?C
     \<lparr>pending = {}, resultChan = [(0, \<lparr>Commit = ''c0'', Analysis = Some (zeroAnalysis\<lparr>Confidence := 40\<rparr>), Error = None\<rparr>)],
      observed = [(1, \<lparr>Commit = ''c1'', Analysis = None, Error = Some NoJSONResponse\<rparr>)],
      co_completed = 1, co_analyses = [], co_phase = Draining, crashed = False\<rparr>"
    using reach_step[OF r2 step.recv[of _ ?C _ _ ?T]]
    by (simp add: absorb_def)
  have r4: "reachable ?T ?C
     \<lparr>pending = {}, resultChan = [],
      observed = [(1, \<lparr>Commit = ''c1'', Analysis = None, Error = Some NoJSONResponse\<rparr>),
                  (0, \<lparr>Commit = ''c0'', Analysis = Some (zeroAnalysis\<lparr>Confidence := 40\<rparr>), Error = None\<rparr>)],
      co_completed = 2, co_analyses = [zeroAnalysis\<lparr>Confidence := 40\<rparr>],
      co_phase = Draining, crashed = False\<rparr>"
    using reach_step[OF r3 step.recv[of _ ?C _ _ ?T]]
    by (simp add: absorb_def numeral_2_eq_2)
  show ?thesis
    using reach_step[OF r4 step.leave[of _ ?C ?T]]
    by (simp add: numeral_2_eq_2)
qed

theorem one_outcome_per_commit_witness:
  "(co_phase
      \<lparr>pending = {}, resultChan = [],
       observed = [(1, \<lparr>Commit = ''c1'', Analysis = None, Error = Some NoJSONResponse\<rparr>),
                   (0, \<lparr>Commit = ''c0'', Analysis = Some (zeroAnalysis\<lparr>Confidence := 40\<rparr>), Error = None\<rparr>)],
       co_completed = 2, co_analyses = [zeroAnalysis\<lparr>Confidence := 40\<rparr>],
       co_phase = Selecting, crashed = False\<rparr> = Selecting
    \<and> fst ` set (observed
      \<lparr>pending = {}, resultChan = [],
       observed = [(1, \<lparr>Commit = ''c1'', Analysis = None, Error = Some NoJSONResponse\<rparr>),
                   (0, \<lparr>Commit = ''c0'', Analysis = Some (zeroAnalysis\<lparr>Confidence := 40\<rparr>), Error = None\<rparr>)],
       co_completed = 2, co_analyses = [zeroAnalysis\<lparr>Confidence := 40\<rparr>],
       co_phase = Selecting, crashed = False\<rparr>) = {0..<length [''c0'', ''c1'']})
   \<and> (\<forall>s'. step (\<lambda>i c. Inl NoJSONResponse) [] (initial []) s'
            \<longleftrightarrow> s' = (initial [])\<lparr>co_phase := Selecting\<rparr>)
   \<and> (\<forall>events. AnalyzeBugInCommits [] events = Some (Inl NoCommitsAnalyzed))"
proof -
  have z: "co_phase (initial []) = Draining" by (simp add: initial_def)
  show ?thesis
    using one_outcome_per_commit[OF example_run_reachable]
      one_outcome_per_commit[OF reach_start[of "\<lambda>i c. Inl NoJSONResponse" "[]"]] z
    by simp
qed

text \<open>Progress, as far as the code decides it: a goroutine that is to send finds a free
  place in the channel, and the coordinator never waits in the drain loop while nothing
  is in the channel and no goroutine is left to send.\<close>

lemma send_never_blocks:
  assumes "reachable task commits s" and "i \<in> pending s"
  shows "length (resultChan s) < length commits"
proof -
  note inv = reachable_invariants[OF assms(1)]
  let ?sent = "map fst (observed s @ resultChan s)"
  from inv have d: "distinct ?sent" by simp
  from inv have sub: "set ?sent \<subseteq> {0..<length commits} - {i}"
    using assms(2) by auto
  have "length ?sent = card (set ?sent)" using distinct_card[OF d] by simp
  also have "\<dots> \<le> card ({0..<length commits} - {i})" by (rule card_mono[OF _ sub]) simp
  also have "\<dots> < length commits"
  proof -
    from inv assms(2) have "i \<in> {0..<length commits}" by blast
    then show ?thesis by (simp add: card_Diff_singleton)
  qed
  finally show ?thesis by simp
qed

lemma coordinator_not_stuck:
  assumes "reachable task commits s" and "co_completed s < length commits"
  shows "resultChan s \<noteq> [] \<or> pending s \<noteq> {}"
proof (rule ccontr)
  assume "\<not> (resultChan s \<noteq> [] \<or> pending s \<noteq> {})"
  then have e: "resultChan s = []" "pending s = {}" by simp_all
  note inv = reachable_invariants[OF assms(1)]
  from inv e have all: "set (map fst (observed s)) = {0..<length commits}" by simp
  from inv have "distinct (map fst (observed s))" by simp
  from distinct_card[OF this] all have "length (observed s) = length commits" by simp
  with inv assms(2) show False by simp
qed



section \<open>Facts about the library functions\<close>

lemma Index_range: "Index s p = - 1 \<or> (0 \<le> Index s p \<and> Index s p \<le> int (length s))"
  by (induction s) (auto simp: Let_def)

lemma Index_found:
  assumes "0 \<le> Index s p"
  shows "prefix (take (nat (Index s p)) s @ p) s"
  using assms
proof (induction s)
  case Nil
  then show ?case by (simp split: if_splits)
next
  case (Cons c s)
  show ?case
  proof (cases "prefix p (c # s)")
    case True
    then show ?thesis by simp
  next
    case False
    with Cons.prems have nn: "0 \<le> Index s p" and eq: "Index (c # s) p = Index s p + 1"
      by (auto simp: Let_def split: if_splits)
    from Cons.IH[OF nn] have "prefix (take (nat (Index s p)) s @ p) s" .
    moreover have "nat (Index s p + 1) = Suc (nat (Index s p))" using nn by simp
    ultimately show ?thesis using eq by simp
  qed
qed

lemma Index_least:
  assumes "prefix (pre @ p) s"
  shows "0 \<le> Index s p \<and> Index s p \<le> int (length pre)"
  using assms
proof (induction pre arbitrary: s)
  case Nil
  then show ?case by (cases s) (auto simp: Let_def)
next
  case (Cons a pre)
  then obtain s' where s: "s = a # s'" and p': "prefix (pre @ p) s'"
    by (cases s) auto
  from Cons.IH[OF p'] show ?case using s by (auto simp: Let_def)
qed

lemma Index_first:
  assumes "s = pre @ p @ post"
    and "\<forall>pre'. prefix (pre' @ p) s \<longrightarrow> length pre \<le> length pre'"
  shows "Index s p = int (length pre)"
proof -
  have pp: "prefix (pre @ p) s" using assms(1) by simp
  from Index_least[OF pp] have nn: "0 \<le> Index s p" and le: "Index s p \<le> int (length pre)" by simp_all
  from Index_found[OF nn] assms(2) have "length pre \<le> length (take (nat (Index s p)) s)" by blast
  then have "int (length pre) \<le> Index s p" using nn by auto
  with le show ?thesis by simp
qed

lemma Index_none: "\<not> sublist p s \<Longrightarrow> Index s p = - 1"
  using Index_range[of s p] Index_found[of s p]
  by (metis prefix_def sublist_def append.assoc)

lemma Index_sublist: "0 \<le> Index s p \<Longrightarrow> sublist p s"
  using Index_found[of s p] by (metis prefix_def sublist_def append.assoc)

lemma Index_char_absent: "c \<notin> set s \<Longrightarrow> Index s [c] = - 1"
  by (rule Index_none) (auto simp: sublist_def)

lemma Index_char_first: "c \<notin> set pre \<Longrightarrow> Index (pre @ c # post) [c] = int (length pre)"
  by (induction pre) (auto simp: Let_def)

lemma LastIndex_char_absent: "c \<notin> set s \<Longrightarrow> LastIndex s [c] = - 1"
  by (simp add: LastIndex_def Index_char_absent)

lemma LastIndex_char_last: "c \<notin> set post \<Longrightarrow> LastIndex (pre @ c # post) [c] = int (length pre)"
  using Index_char_first[of c "rev post" "rev pre"] by (simp add: LastIndex_def)

lemma Split_not_Nil: "Split s sep \<noteq> []"
  by (induction s) (auto split: list.splits)

lemma unicodeSpaces_bytes:
  "u \<in> set unicodeSpaces \<Longrightarrow> u \<noteq> [] \<and> (128::nat) \<le> of_char (hd u) \<and> (128::nat) \<le> of_char (last u)"
  by (auto simp: unicodeSpaces_def)

lemma asciiSpace_ascii: "asciiSpace c \<Longrightarrow> (of_char c :: nat) < 128"
  by (auto simp: asciiSpace_def)

lemma spaceWidth_ascii:
  assumes "(of_char c :: nat) < 128" and "\<not> asciiSpace c"
  shows "spaceWidth (c # s) = 0"
proof -
  have "find (\<lambda>u. prefix u (c # s)) unicodeSpaces = None"
  proof (rule ccontr)
    assume "find (\<lambda>u. prefix u (c # s)) unicodeSpaces \<noteq> None"
    then obtain u where u: "u \<in> set unicodeSpaces" "prefix u (c # s)"
      by (auto simp: find_None_iff)
    from unicodeSpaces_bytes[OF u(1)] u(2) have "hd u = c" by (cases u) auto
    with unicodeSpaces_bytes[OF u(1)] assms(1) show False by simp
  qed
  with assms(2) show ?thesis by (simp add: spaceWidth_def)
qed

lemma spaceWidthLast_ascii:
  assumes "(of_char c :: nat) < 128" and "\<not> asciiSpace c"
  shows "spaceWidthLast (s @ [c]) = 0"
proof -
  have "find (\<lambda>u. suffix u (s @ [c])) unicodeSpaces = None"
  proof (rule ccontr)
    assume "find (\<lambda>u. suffix u (s @ [c])) unicodeSpaces \<noteq> None"
    then obtain u where u: "u \<in> set unicodeSpaces" "suffix u (s @ [c])"
      by (auto simp: find_None_iff)
    from unicodeSpaces_bytes[OF u(1)] have ne: "u \<noteq> []" by simp
    from u(2) obtain zs where "s @ [c] = zs @ u" by (auto simp: suffix_def)
    with ne have "last u = c" by (metis last_appendR last_snoc)
    with unicodeSpaces_bytes[OF u(1)] assms(1) show False by simp
  qed
  with assms(2) show ?thesis by (simp add: spaceWidthLast_def)
qed

lemma TrimLeftSpace_suffix: "suffix (TrimLeftSpace s) s"
proof (induction s rule: TrimLeftSpace.induct)
  case (1 s)
  show ?case
  proof (cases "spaceWidth s = 0")
    case True
    then show ?thesis by (simp add: TrimLeftSpace.simps[of s])
  next
    case False
    from 1[OF False] have "suffix (TrimLeftSpace (drop (spaceWidth s) s)) (drop (spaceWidth s) s)" .
    then have "suffix (TrimLeftSpace (drop (spaceWidth s) s)) s"
      using suffix_drop suffix_order.trans by blast
    with False show ?thesis by (simp add: TrimLeftSpace.simps[of s])
  qed
qed

lemma TrimRightSpace_prefix: "prefix (TrimRightSpace s) s"
proof (induction s rule: TrimRightSpace.induct)
  case (1 s)
  show ?case
  proof (cases "spaceWidthLast s = 0")
    case True
    then show ?thesis by (simp add: TrimRightSpace.simps[of s])
  next
    case False
    from 1[OF False] have "prefix (TrimRightSpace (take (length s - spaceWidthLast s) s)) (take (length s - spaceWidthLast s) s)" .
    then have "prefix (TrimRightSpace (take (length s - spaceWidthLast s) s)) s"
      using take_is_prefix prefix_order.trans by blast
    with False show ?thesis by (simp add: TrimRightSpace.simps[of s])
  qed
qed

lemma TrimSpace_sublist: "sublist (TrimSpace s) s"
proof -
  have "sublist (TrimRightSpace (TrimLeftSpace s)) (TrimLeftSpace s)"
    using TrimRightSpace_prefix by (rule prefix_imp_sublist)
  moreover have "sublist (TrimLeftSpace s) s"
    using TrimLeftSpace_suffix by (rule suffix_imp_sublist)
  ultimately show ?thesis unfolding TrimSpace_def by (rule sublist_order.order.trans)
qed

lemma TrimSpace_set: "set (TrimSpace s) \<subseteq> set s"
  using TrimSpace_sublist by (rule set_mono_sublist)

lemma TrimSpace_ascii_ends:
  assumes "(of_char c :: nat) < 128" "\<not> asciiSpace c" "(of_char d :: nat) < 128" "\<not> asciiSpace d"
  shows "TrimSpace (c # m @ [d]) = c # m @ [d]"
proof -
  have "TrimLeftSpace (c # m @ [d]) = c # m @ [d]"
    using spaceWidth_ascii[OF assms(1,2)] by (simp add: TrimLeftSpace.simps[of "c # m @ [d]"])
  moreover have "TrimRightSpace (c # m @ [d]) = c # m @ [d]"
    using spaceWidthLast_ascii[OF assms(3,4), of "c # m"] by (simp add: TrimRightSpace.simps[of "c # m @ [d]"])
  ultimately show ?thesis by (simp add: TrimSpace_def)
qed

lemma TrimSpace_Nil: "TrimSpace [] = []"
  by (simp add: TrimSpace_def TrimLeftSpace.simps[of "[]"] TrimRightSpace.simps[of "[]"] spaceWidth_def spaceWidthLast_def)

section \<open>The claims on the location of the payload\<close>

lemma fencedBody_Index:
  assumes "fencedBody t body"
  shows "0 \<le> Index t ''```json''
       \<and> Index (drop (nat (Index t ''```json'') + 7) t) ''```'' = int (length body)
       \<and> take (length body) (drop (nat (Index t ''```json'') + 7) t) = body"
proof -
  from assms obtain pre post where
    t: "t = pre @ ''```json'' @ body @ ''```'' @ post"
    and m1: "\<forall>pre'. prefix (pre' @ ''```json'') t \<longrightarrow> length pre \<le> length pre'"
    and m2: "\<forall>body'. prefix (body' @ ''```'') (body @ ''```'' @ post) \<longrightarrow> length body \<le> length body'"
    unfolding fencedBody_def by blast
  have t': "t = pre @ ''```json'' @ (body @ ''```'' @ post)" using t by simp
  have i1: "Index t ''```json'' = int (length pre)"
    by (rule Index_first[OF t' m1])
  have "drop (length pre + 7) t = drop (length pre + 7) ((pre @ ''```json'') @ (body @ ''```'' @ post))"
    using t by simp
  also have "\<dots> = body @ ''```'' @ post"
    by (subst drop_append) simp
  finally have d: "drop (length pre + 7) t = body @ ''```'' @ post" .
  have i2: "Index (body @ ''```'' @ post) ''```'' = int (length body)"
    by (rule Index_first[OF refl m2])
  have n: "nat (Index t ''```json'') = length pre" using i1 by simp
  show ?thesis unfolding n d i2 using i1 by simp
qed

lemma Index_fencedBody:
  assumes "0 \<le> Index t ''```json''"
    and "0 \<le> Index (drop (nat (Index t ''```json'') + 7) t) ''```''"
  shows "fencedBody t
           (take (nat (Index (drop (nat (Index t ''```json'') + 7) t) ''```''))
                 (drop (nat (Index t ''```json'') + 7) t))"
proof -
  let ?n = "nat (Index t ''```json'')"
  let ?r = "drop (?n + 7) t"
  let ?e = "nat (Index ?r ''```'')"
  from Index_found[OF assms(1)] obtain r where r: "t = (take ?n t @ ''```json'') @ r"
    by (auto simp: prefix_def)
  have n: "?n \<le> length t" using Index_range[of t "''```json''"] assms(1) by auto
  then have ln: "length (take ?n t) = ?n" by simp
  have "drop (?n + 7) t = drop (?n + 7) ((take ?n t @ ''```json'') @ r)" using r by simp
  also have "\<dots> = r" using ln by simp
  finally have rr: "?r = r" .
  from Index_found[OF assms(2)] obtain post where post: "?r = (take ?e ?r @ ''```'') @ post"
    by (auto simp: prefix_def)
  have e: "?e \<le> length ?r" using Index_range[of ?r "''```''"] assms(2) by auto
  then have le: "length (take ?e ?r) = ?e" by simp
  have t: "t = take ?n t @ ''```json'' @ take ?e ?r @ ''```'' @ post"
    using r rr post by (metis append.assoc)
  have m1: "\<forall>pre'. prefix (pre' @ ''```json'') t \<longrightarrow> length (take ?n t) \<le> length pre'"
  proof (intro allI impI)
    fix pre' assume "prefix (pre' @ ''```json'') t"
    from Index_least[OF this] show "length (take ?n t) \<le> length pre'" using ln by linarith
  qed
  have rest: "take ?e ?r @ ''```'' @ post = ?r" using post by simp
  have m2: "\<forall>body'. prefix (body' @ ''```'') (take ?e ?r @ ''```'' @ post) \<longrightarrow> length (take ?e ?r) \<le> length body'"
  proof (intro allI impI)
    fix body' assume "prefix (body' @ ''```'') (take ?e ?r @ ''```'' @ post)"
    then have "prefix (body' @ ''```'') ?r" using rest by simp
    from Index_least[OF this] show "length (take ?e ?r) \<le> length body'" using le by linarith
  qed
  show ?thesis unfolding fencedBody_def
    by (rule exI[of _ "take ?n t"], rule exI[of _ post]) (use t m1 m2 in blast)
qed

lemma fencedBody_sublist: "fencedBody t body \<Longrightarrow> sublist ''```json'' t"
  unfolding fencedBody_def sublist_def by blast

lemma fencedBody_unique:
  assumes "fencedBody t b1" "fencedBody t b2"
  shows "b1 = b2"
proof -
  let ?X = "drop (nat (Index t ''```json'') + 7) t"
  from fencedBody_Index[OF assms(1)]
  have a1: "Index ?X ''```'' = int (length b1)" and t1: "take (length b1) ?X = b1" by blast+
  from fencedBody_Index[OF assms(2)]
  have a2: "Index ?X ''```'' = int (length b2)" and t2: "take (length b2) ?X = b2" by blast+
  have "int (length b1) = int (length b2)" using a1[symmetric] a2 by (rule trans)
  then have l: "length b1 = length b2" by (simp only: of_nat_eq_iff)
  have "b1 = take (length b1) ?X" using t1 by (rule sym)
  also have "\<dots> = take (length b2) ?X" unfolding l ..
  also have "\<dots> = b2" by (rule t2)
  finally show ?thesis .
qed

text \<open>The first strategy of \<open>extractPayload\<close>, alone.\<close>

lemma fence_strategy:
  "(if Contains t ''```json'' then
      (let start = Index t ''```json'';
           end' = Index (sliceFrom t (start + 7)) ''```''
       in if start \<ge> 0 \<and> end' > 0
          then Some (TrimSpace (slice t (start + 7) (start + 7 + end')))
          else None)
    else None)
   = (if \<exists>body. fencedBody t body \<and> body \<noteq> []
      then Some (TrimSpace (THE body. fencedBody t body))
      else None)"
proof (cases "\<exists>body. fencedBody t body \<and> body \<noteq> []")
  case True
  then obtain body where b: "fencedBody t body" "body \<noteq> []" by blast
  note ix = fencedBody_Index[OF b(1)]
  have uniq: "b' = body" if "fencedBody t b'" for b'
    using that b(1) by (rule fencedBody_unique)
  have the: "(THE body. fencedBody t body) = body"
    using b(1) uniq by (rule the_equality[of "fencedBody t" body])
  let ?n = "Index t ''```json''"
  have n0: "0 \<le> ?n" using ix by simp
  have sl: "sliceFrom t (?n + 7) = drop (nat ?n + 7) t"
    using n0 by (simp add: sliceFrom_def nat_add_distrib)
  have e: "Index (sliceFrom t (?n + 7)) ''```'' = int (length body)" using ix sl by simp
  have "slice t (?n + 7) (?n + 7 + int (length body)) = take (length body) (drop (nat ?n + 7) t)"
    using n0 by (simp add: slice_def nat_add_distrib)
  then have "slice t (?n + 7) (?n + 7 + int (length body)) = body" using ix by simp
  with e n0 b(2) the True show ?thesis by (simp add: Contains_def Let_def)
next
  case False
  have "\<not> (0 \<le> Index t ''```json'' \<and> 0 < Index (sliceFrom t (Index t ''```json'' + 7)) ''```'')"
  proof
    assume a: "0 \<le> Index t ''```json'' \<and> 0 < Index (sliceFrom t (Index t ''```json'' + 7)) ''```''"
    let ?n = "Index t ''```json''"
    have sl: "sliceFrom t (?n + 7) = drop (nat ?n + 7) t"
      using a by (simp add: sliceFrom_def nat_add_distrib)
    let ?r = "drop (nat ?n + 7) t"
    from a sl have e: "0 < Index ?r ''```''" by simp
    then have "fencedBody t (take (nat (Index ?r ''```'')) ?r)"
      using Index_fencedBody[of t] a by simp
    moreover have "nat (Index ?r ''```'') \<le> length ?r"
      using Index_range[of ?r "''```''"] e by auto
    then have "take (nat (Index ?r ''```'')) ?r \<noteq> []" using e by auto
    ultimately show False using False by blast
  qed
  with False show ?thesis by (auto simp: Contains_def Let_def)
qed

lemma Index_char_nth:
  assumes "0 \<le> Index s [c]"
  shows "nat (Index s [c]) < length s \<and> s ! nat (Index s [c]) = c"
proof -
  from Index_found[OF assms] obtain r where r: "s = (take (nat (Index s [c])) s @ [c]) @ r"
    by (auto simp: prefix_def)
  have n: "nat (Index s [c]) \<le> length s" using Index_range[of s "[c]"] assms by auto
  then have l: "length (take (nat (Index s [c])) s) = nat (Index s [c])" by simp
  have "length s = length ((take (nat (Index s [c])) s @ [c]) @ r)" using r by simp
  then have lt: "nat (Index s [c]) < length s" using l by simp
  have "s ! nat (Index s [c]) = ((take (nat (Index s [c])) s @ [c]) @ r) ! nat (Index s [c])"
    using r by simp
  also have "\<dots> = c" using l by (simp add: nth_append)
  finally show ?thesis using lt by simp
qed

lemma LastIndex_char_nth:
  assumes "0 \<le> LastIndex s [c]"
  shows "nat (LastIndex s [c]) < length s \<and> s ! nat (LastIndex s [c]) = c"
proof -
  let ?i = "Index (rev s) [c]"
  from assms have i0: "0 \<le> ?i" and li: "LastIndex s [c] = int (length s) - 1 - ?i"
    by (auto simp: LastIndex_def Let_def split: if_splits)
  from Index_char_nth[OF i0] have lt: "nat ?i < length s" and c: "rev s ! nat ?i = c" by simp_all
  have n: "nat (LastIndex s [c]) = length s - Suc (nat ?i)" using li i0 lt by simp
  have "rev s ! nat ?i = s ! (length s - Suc (nat ?i))" using lt by (simp add: rev_nth)
  with c n lt show ?thesis by simp
qed

lemma between_positions:
  assumes "n < m" "m < length s" "s ! n = a" "s ! m = b"
  shows "\<exists>pre mid post. s = pre @ [a] @ mid @ [b] @ post"
proof -
  have "s = take m s @ [b] @ drop (Suc m) s"
    using assms(2,4) id_take_nth_drop[of m s] by simp
  moreover have "take m s = take n (take m s) @ [a] @ drop (Suc n) (take m s)"
    using assms(1,2,3) id_take_nth_drop[of n "take m s"] by simp
  ultimately have "s = take n (take m s) @ [a] @ drop (Suc n) (take m s) @ [b] @ drop (Suc m) s"
    by (metis append.assoc)
  then show ?thesis by blast
qed

text \<open>The second and third strategies of \<open>extractPayload\<close>, alone.\<close>

lemma brace_span:
  assumes "t = pre @ ''{'' @ mid @ ''}'' @ post" "CHR ''{'' \<notin> set pre" "CHR ''}'' \<notin> set post"
  shows "(if HasPrefix t ''{'' \<and> HasSuffix t ''}'' then Some t
          else
            (let startIdx = Index t ''{'';
                 endIdx = LastIndex t ''}''
             in if startIdx \<ge> 0 \<and> endIdx > startIdx then
                  (let potentialJSON = TrimSpace (slice t startIdx (endIdx + 1))
                   in if HasPrefix potentialJSON ''{'' \<and> HasSuffix potentialJSON ''}''
                      then Some potentialJSON
                      else None)
                else None))
         = Some (''{'' @ mid @ ''}'')"
proof (cases "HasPrefix t ''{'' \<and> HasSuffix t ''}''")
  case True
  have "pre = []"
  proof (cases pre)
    case (Cons a as)
    with True assms(1) have "a = CHR ''{''" by (simp add: HasPrefix_def)
    with Cons assms(2) show ?thesis by simp
  qed simp
  moreover have "post = []"
  proof (cases post rule: rev_cases)
    case (snoc as a)
    from True have "suffix ''}'' t" by (simp add: HasSuffix_def)
    then have "last t = CHR ''}''" by (auto simp: suffix_def)
    moreover have "last t = a" using assms(1) snoc by simp
    ultimately show ?thesis using snoc assms(3) by simp
  qed simp
  ultimately show ?thesis using True assms(1) by simp
next
  case False
  have s: "Index t ''{'' = int (length pre)"
    using Index_char_first[OF assms(2), of "mid @ ''}'' @ post"] assms(1) by simp
  have "t = (pre @ ''{'' @ mid) @ CHR ''}'' # post" using assms(1) by simp
  then have "LastIndex t ''}'' = int (length (pre @ ''{'' @ mid))"
    using LastIndex_char_last[OF assms(3), of "pre @ ''{'' @ mid"] by simp
  then have e: "LastIndex t ''}'' = int (length pre) + 1 + int (length mid)" by simp
  have "slice t (int (length pre)) (int (length pre) + 1 + int (length mid) + 1)
          = take (length mid + 2) (drop (length pre) t)"
    by (simp add: slice_def nat_add_distrib)
  also have "\<dots> = take (length mid + 2) ((''{'' @ mid @ ''}'') @ post)"
    using assms(1) by simp
  also have "\<dots> = ''{'' @ mid @ ''}''"
    by (subst take_append) simp
  finally have sl: "slice t (int (length pre)) (int (length pre) + 1 + int (length mid) + 1) = ''{'' @ mid @ ''}''" .
  have tr: "TrimSpace (''{'' @ mid @ ''}'') = ''{'' @ mid @ ''}''"
    using TrimSpace_ascii_ends[of "CHR ''{''" "CHR ''}''" mid] by (simp add: asciiSpace_def)
  have hp: "HasPrefix (''{'' @ mid @ ''}'') ''{''" by (simp add: HasPrefix_def)
  have "suffix ''}'' ((''{'' @ mid) @ ''}'')" by (rule suffixI) simp
  then have hs: "HasSuffix (''{'' @ mid @ ''}'') ''}''" by (simp add: HasSuffix_def)
  have e': "LastIndex t ''}'' + 1 = int (length pre) + 1 + int (length mid) + 1" using e by simp
  have gt: "Index t ''{'' < LastIndex t ''}''" using s e by simp
  have ge: "0 \<le> Index t ''{''" using s by simp
  show ?thesis
    unfolding Let_def if_not_P[OF False] e' s sl tr
    using gt ge hp hs s by simp
qed

lemma brace_none:
  assumes "\<nexists>pre mid post. t = pre @ ''{'' @ mid @ ''}'' @ post"
  shows "(if HasPrefix t ''{'' \<and> HasSuffix t ''}'' then Some t
          else
            (let startIdx = Index t ''{'';
                 endIdx = LastIndex t ''}''
             in if startIdx \<ge> 0 \<and> endIdx > startIdx then
                  (let potentialJSON = TrimSpace (slice t startIdx (endIdx + 1))
                   in if HasPrefix potentialJSON ''{'' \<and> HasSuffix potentialJSON ''}''
                      then Some potentialJSON
                      else None)
                else None))
         = None"
proof -
  have a: "\<not> (0 \<le> Index t ''{'' \<and> Index t ''{'' < LastIndex t ''}'')"
  proof
    assume h: "0 \<le> Index t ''{'' \<and> Index t ''{'' < LastIndex t ''}''"
    then have "0 \<le> LastIndex t ''}''" by simp
    from LastIndex_char_nth[OF this] Index_char_nth[of t "CHR ''{''"] h
    have "nat (Index t ''{'') < nat (LastIndex t ''}'')" "nat (LastIndex t ''}'') < length t"
      "t ! nat (Index t ''{'') = CHR ''{''" "t ! nat (LastIndex t ''}'') = CHR ''}''" by auto
    from between_positions[OF this] assms show False by simp
  qed
  have b: "\<not> (HasPrefix t ''{'' \<and> HasSuffix t ''}'')"
  proof
    assume h: "HasPrefix t ''{'' \<and> HasSuffix t ''}''"
    then obtain r where r: "t = CHR ''{'' # r" by (auto simp: HasPrefix_def prefix_def)
    from h obtain q where q: "t = q @ ''}''" by (auto simp: HasSuffix_def suffix_def)
    from r q have "r \<noteq> []" by auto
    with r q have "last r = CHR ''}''" by (metis last_ConsR last_snoc)
    with \<open>r \<noteq> []\<close> have "r = butlast r @ ''}''" by (metis append_butlast_last_id)
    with r have "t = [] @ ''{'' @ butlast r @ ''}'' @ []" by simp
    with assms show False by blast
  qed
  from a b show ?thesis by (auto simp: Let_def)
qed

text \<open>The guards of \<open>extractPayload\<close> keep every slice within the text, so that no slice
  expression of the extraction panics.\<close>

lemma fence_slices_in_range:
  assumes "Contains t ''```json''"
  shows "0 \<le> Index t ''```json'' + 7 \<and> Index t ''```json'' + 7 \<le> int (length t)"
    and "0 < Index (sliceFrom t (Index t ''```json'' + 7)) ''```'' \<Longrightarrow>
           Index t ''```json'' + 7 + Index (sliceFrom t (Index t ''```json'' + 7)) ''```''
             \<le> int (length t)"
proof -
  from assms have n0: "0 \<le> Index t ''```json''" by (simp add: Contains_def)
  from Index_found[OF n0] have "length (take (nat (Index t ''```json'')) t @ ''```json'') \<le> length t"
    by (rule prefix_length_le)
  moreover have "nat (Index t ''```json'') \<le> length t"
    using Index_range[of t "''```json''"] n0 by auto
  ultimately have le: "nat (Index t ''```json'') + 7 \<le> length t" by simp
  with n0 show a: "0 \<le> Index t ''```json'' + 7 \<and> Index t ''```json'' + 7 \<le> int (length t)"
    by linarith
  assume e: "0 < Index (sliceFrom t (Index t ''```json'' + 7)) ''```''"
  let ?r = "sliceFrom t (Index t ''```json'' + 7)"
  have "length ?r = length t - (nat (Index t ''```json'') + 7)"
    using n0 by (simp add: sliceFrom_def nat_add_distrib)
  moreover have "Index ?r ''```'' \<le> int (length ?r)"
    using Index_range[of ?r "''```''"] e by auto
  ultimately show "Index t ''```json'' + 7 + Index ?r ''```'' \<le> int (length t)"
    using le n0 by linarith
qed

lemma brace_slice_in_range:
  assumes "0 \<le> Index t ''{''" "Index t ''{'' < LastIndex t ''}''"
  shows "LastIndex t ''}'' + 1 \<le> int (length t)"
proof -
  from assms have "0 \<le> LastIndex t ''}''" by simp
  from LastIndex_char_nth[OF this] have "nat (LastIndex t ''}'') < length t" by simp
  then show ?thesis by linarith
qed

lemma extractPayload_fenced:
  assumes "fencedBody (TrimSpace raw) body" "body \<noteq> []"
  shows "extractPayload raw = Some (TrimSpace body)"
proof -
  have ex: "\<exists>body. fencedBody (TrimSpace raw) body \<and> body \<noteq> []" using assms by blast
  have "(THE b. fencedBody (TrimSpace raw) b) = body"
    using assms(1) fencedBody_unique[OF _ assms(1)]
    by (rule the_equality[of "fencedBody (TrimSpace raw)" body])
  then show ?thesis
    unfolding extractPayload_def Let_def fence_strategy[unfolded Let_def] if_P[OF ex]
    by simp
qed

lemma extractPayload_unfenced:
  assumes "\<nexists>body. fencedBody (TrimSpace raw) body \<and> body \<noteq> []"
  shows "extractPayload raw =
         (if HasPrefix (TrimSpace raw) ''{'' \<and> HasSuffix (TrimSpace raw) ''}'' then Some (TrimSpace raw)
          else
            (let startIdx = Index (TrimSpace raw) ''{'';
                 endIdx = LastIndex (TrimSpace raw) ''}''
             in if startIdx \<ge> 0 \<and> endIdx > startIdx then
                  (let potentialJSON = TrimSpace (slice (TrimSpace raw) startIdx (endIdx + 1))
                   in if HasPrefix potentialJSON ''{'' \<and> HasSuffix potentialJSON ''}''
                      then Some potentialJSON
                      else None)
                else None))"
  unfolding extractPayload_def Let_def fence_strategy[unfolded Let_def] if_not_P[OF assms]
  by simp

lemma extractPayload_plain:
  assumes "CHR ''{'' \<notin> set raw" "CHR ''}'' \<notin> set raw" "\<not> sublist ''```json'' raw"
  shows "extractPayload raw = None"
proof -
  have nf: "\<nexists>body. fencedBody (TrimSpace raw) body \<and> body \<noteq> []"
  proof
    assume "\<exists>body. fencedBody (TrimSpace raw) body \<and> body \<noteq> []"
    then obtain body where "fencedBody (TrimSpace raw) body" by blast
    then have "sublist ''```json'' (TrimSpace raw)" by (rule fencedBody_sublist)
    then have "sublist ''```json'' raw"
      using TrimSpace_sublist[of raw] by (rule sublist_order.order.trans)
    with assms(3) show False by simp
  qed
  have nb: "\<nexists>pre mid post. TrimSpace raw = pre @ ''{'' @ mid @ ''}'' @ post"
  proof
    assume "\<exists>pre mid post. TrimSpace raw = pre @ ''{'' @ mid @ ''}'' @ post"
    then have "CHR ''{'' \<in> set (TrimSpace raw)" by auto
    with TrimSpace_set[of raw] assms(1) show False by blast
  qed
  show ?thesis unfolding extractPayload_unfenced[OF nf] by (rule brace_none[OF nb])
qed

lemma scanBlocks_plain:
  assumes "\<forall>raw. TextBlock raw \<in> set blocks \<longrightarrow> extractPayload raw = None"
  shows "scanBlocks blocks = None"
  using assms by (induction blocks rule: scanBlocks.induct) auto

lemma scanMessages_plain:
  assumes "\<forall>m \<in> set messages. scanBlocks m = None"
  shows "scanMessages messages = []"
  using assms by (induction messages) auto

text \<open>
  C5, as stated, fails: a trimmed text bracketed as an array is not taken as the payload,
  and no payload is found in it.
\<close>

theorem array_text_counterexample:
  "TrimSpace ''[1, 2]'' = ''[1, 2]'' \<and> extractPayload ''[1, 2]'' = None"
  by code_simp

text \<open>
  C5, amended. On the trimmed text \<open>t\<close> of a text block, three strategies are tried in
  order and the first to succeed gives the payload. (1) When \<open>t\<close> holds an opening JSON
  fence and a closing fence after it, with a non-empty content \<open>body\<close> between the first
  opening fence and the next closing one, the payload is \<open>body\<close>, trimmed. (2) Otherwise,
  when \<open>t\<close> starts with an opening brace and ends with a closing brace, the payload is
  \<open>t\<close> as it is; a text in square brackets is not taken so. (3) Otherwise, when an opening
  brace comes before a closing one, the payload is the span from the first opening brace
  to the last closing brace. Otherwise no payload is found.
\<close>

theorem payload_strategies:
  assumes "t = TrimSpace raw"
  shows "(\<forall>body. fencedBody t body \<and> body \<noteq> [] \<longrightarrow> extractPayload raw = Some (TrimSpace body))
       \<and> ((\<nexists>body. fencedBody t body \<and> body \<noteq> []) \<longrightarrow>
            (prefix ''{'' t \<and> suffix ''}'' t \<longrightarrow> extractPayload raw = Some t)
            \<and> (\<forall>pre mid post.
                  t = pre @ ''{'' @ mid @ ''}'' @ post \<and> CHR ''{'' \<notin> set pre \<and> CHR ''}'' \<notin> set post
                  \<longrightarrow> extractPayload raw = Some (''{'' @ mid @ ''}''))
            \<and> ((\<nexists>pre mid post. t = pre @ ''{'' @ mid @ ''}'' @ post)
                  \<longrightarrow> extractPayload raw = None))"
proof (intro conjI allI impI)
  fix body assume "fencedBody t body \<and> body \<noteq> []"
  then show "extractPayload raw = Some (TrimSpace body)"
    using extractPayload_fenced[of raw body] assms by simp
next
  assume nf: "\<nexists>body. fencedBody t body \<and> body \<noteq> []"
  note u = extractPayload_unfenced[of raw, folded assms, OF nf]
  assume "prefix ''{'' t \<and> suffix ''}'' t"
  then have "HasPrefix t ''{'' \<and> HasSuffix t ''}''" by (simp add: HasPrefix_def HasSuffix_def)
  then show "extractPayload raw = Some t" unfolding u by (rule if_P)
next
  fix pre mid post
  assume nf: "\<nexists>body. fencedBody t body \<and> body \<noteq> []"
  note u = extractPayload_unfenced[of raw, folded assms, OF nf]
  assume d: "t = pre @ ''{'' @ mid @ ''}'' @ post \<and> CHR ''{'' \<notin> set pre \<and> CHR ''}'' \<notin> set post"
  then have "t = pre @ ''{'' @ mid @ ''}'' @ post" "CHR ''{'' \<notin> set pre" "CHR ''}'' \<notin> set post"
    by blast+
  from brace_span[OF this] show "extractPayload raw = Some (''{'' @ mid @ ''}'')"
    unfolding u .
next
  assume nf: "\<nexists>body. fencedBody t body \<and> body \<noteq> []"
  note u = extractPayload_unfenced[of raw, folded assms, OF nf]
  assume "\<nexists>pre mid post. t = pre @ ''{'' @ mid @ ''}'' @ post"
  from brace_none[OF this] show "extractPayload raw = None"
    unfolding u .
qed

theorem payload_strategies_witness:
  \<open>extractPayload ''see ```json {"a": 1} ``` ok'' = Some (TrimSpace '' {"a": 1} '')
   \<and> extractPayload '' {"a": 1} '' = Some ''{"a": 1}''
   \<and> extractPayload ''so {"a": 1} ok'' = Some (''{'' @ ''"a": 1'' @ ''}'')
   \<and> extractPayload ''plain words'' = None\<close>
proof -
  let ?t1 = \<open>''see ```json {"a": 1} ``` ok''\<close>
  have t1: "?t1 = TrimSpace ?t1" by code_simp
  have i: "0 \<le> Index ?t1 ''```json''" by code_simp
  have j: "0 \<le> Index (drop (nat (Index ?t1 ''```json'') + 7) ?t1) ''```''" by code_simp
  have k: \<open>take (nat (Index (drop (nat (Index ?t1 ''```json'') + 7) ?t1) ''```''))
             (drop (nat (Index ?t1 ''```json'') + 7) ?t1) = '' {"a": 1} ''\<close> by code_simp
  have f1: \<open>fencedBody ?t1 '' {"a": 1} ''\<close> using Index_fencedBody[OF i j] unfolding k .
  have w1: \<open>extractPayload ?t1 = Some (TrimSpace '' {"a": 1} '')\<close>
    using payload_strategies[OF t1] f1 by blast
  let ?r2 = \<open>'' {"a": 1} ''\<close> and ?t2 = \<open>''{"a": 1}''\<close>
  have t2: "?t2 = TrimSpace ?r2" by code_simp
  have "\<not> sublist ''```json'' ?t2" by code_simp
  then have n2: "\<nexists>body. fencedBody ?t2 body \<and> body \<noteq> []" using fencedBody_sublist by blast
  have p2: "prefix ''{'' ?t2 \<and> suffix ''}'' ?t2" by code_simp
  have w2: "extractPayload ?r2 = Some ?t2"
    using payload_strategies[OF t2] n2 p2 by blast
  let ?t3 = \<open>''so {"a": 1} ok''\<close>
  have t3: "?t3 = TrimSpace ?t3" by code_simp
  have "\<not> sublist ''```json'' ?t3" by code_simp
  then have n3: "\<nexists>body. fencedBody ?t3 body \<and> body \<noteq> []" using fencedBody_sublist by blast
  have d3: \<open>?t3 = ''so '' @ ''{'' @ ''"a": 1'' @ ''}'' @ '' ok'' \<and> CHR ''{'' \<notin> set ''so '' \<and> CHR ''}'' \<notin> set '' ok''\<close>
    by simp
  have w3: \<open>extractPayload ?t3 = Some (''{'' @ ''"a": 1'' @ ''}'')\<close>
    using payload_strategies[OF t3] n3 d3 by blast
  let ?t4 = "''plain words''"
  have t4: "?t4 = TrimSpace ?t4" by code_simp
  have "\<not> sublist ''```json'' ?t4" by code_simp
  then have n4: "\<nexists>body. fencedBody ?t4 body \<and> body \<noteq> []" using fencedBody_sublist by blast
  have "CHR ''{'' \<notin> set ?t4" by simp
  then have b4: "\<nexists>pre mid post. ?t4 = pre @ ''{'' @ mid @ ''}'' @ post"
    by (metis in_set_conv_decomp append_Cons append_Nil)
  have w4: "extractPayload ?t4 = None"
    using payload_strategies[OF t4] n4 b4 by blast
  from w1 w2 w3 w4 show ?thesis by blast
qed

text \<open>
  C9, as stated, fails: a text without any brace that holds a fenced block gives a
  payload, the content of the block. The payload is not empty, so the task parses it and
  returns a verdict, here the zero-valued one, and no error.
\<close>

theorem fenced_text_without_braces_counterexample:
  "CHR ''{'' \<notin> set ''```json x ```'' \<and> CHR ''}'' \<notin> set ''```json x ```''
   \<and> extractPayload ''```json x ```'' = Some ''x''
   \<and> scanMessages [[TextBlock ''```json x ```'']] = ''x''
   \<and> parseAnalysis ''x'' = zeroAnalysis"
  by code_simp

lemma same_reply_same_result:
  assumes "parts = Split commit CHR ''|''"
    and "otherQuery (buildPrompt a (parts ! 0) (parts ! 1) (parts ! 2) (parts ! 3) bugDescription)
           = QueryWithRequest (buildPrompt a (parts ! 0) (parts ! 1) (parts ! 2) (parts ! 3) bugDescription)"
  shows "AnalyzeSingleCommit a otherQuery commit bugDescription
           = AnalyzeSingleCommit a QueryWithRequest commit bugDescription"
  unfolding AnalyzeSingleCommit_def Let_def assms(1)[symmetric] assms(2) by (rule refl)

text \<open>
  C9, amended. For every text that holds no opening brace, no closing brace and no opening
  JSON fence, no payload is found. When the oracle answers a well-formed commit with
  messages whose text blocks are all such texts, \<^verbatim>\<open>AnalyzeSingleCommit\<close> returns the error
  of a failed extraction: no panic, no verdict. The extraction reads nothing but the
  reply, so any call of the oracle that gives the same reply gives the same result.
\<close>

theorem plain_text_not_found:
  assumes "\<forall>m \<in> set messages. \<forall>raw. TextBlock raw \<in> set m \<longrightarrow>
             CHR ''{'' \<notin> set raw \<and> CHR ''}'' \<notin> set raw \<and> \<not> sublist ''```json'' raw"
    and "parts = Split commit CHR ''|''"
    and "4 \<le> length parts"
    and "8 \<le> length (parts ! 0)"
    and "QueryWithRequest (buildPrompt a (parts ! 0) (parts ! 1) (parts ! 2) (parts ! 3) bugDescription)
           = Inr messages"
  shows "(\<forall>m \<in> set messages. \<forall>raw. TextBlock raw \<in> set m \<longrightarrow> extractPayload raw = None)
       \<and> scanMessages messages = []
       \<and> AnalyzeSingleCommit a QueryWithRequest commit bugDescription = Inl NoJSONResponse
       \<and> (\<forall>otherQuery.
             otherQuery (buildPrompt a (parts ! 0) (parts ! 1) (parts ! 2) (parts ! 3) bugDescription)
               = Inr messages
             \<longrightarrow> AnalyzeSingleCommit a otherQuery commit bugDescription
                   = AnalyzeSingleCommit a QueryWithRequest commit bugDescription)"
proof -
  have e: "\<forall>m \<in> set messages. \<forall>raw. TextBlock raw \<in> set m \<longrightarrow> extractPayload raw = None"
    using assms(1) extractPayload_plain by blast
  then have "\<forall>m \<in> set messages. scanBlocks m = None"
    using scanBlocks_plain by blast
  then have s: "scanMessages messages = []" by (rule scanMessages_plain)
  have r: "AnalyzeSingleCommit a QueryWithRequest commit bugDescription = Inl NoJSONResponse"
    unfolding AnalyzeSingleCommit_def Let_def assms(2)[symmetric]
    using assms(3,4,5) s by simp
  have d: "\<forall>otherQuery.
             otherQuery (buildPrompt a (parts ! 0) (parts ! 1) (parts ! 2) (parts ! 3) bugDescription)
               = Inr messages
             \<longrightarrow> AnalyzeSingleCommit a otherQuery commit bugDescription
                   = AnalyzeSingleCommit a QueryWithRequest commit bugDescription"
  proof (intro allI impI)
    fix otherQuery :: "string \<Rightarrow> string + message list"
    assume "otherQuery (buildPrompt a (parts ! 0) (parts ! 1) (parts ! 2) (parts ! 3) bugDescription)
              = Inr messages"
    with assms(5) have "otherQuery (buildPrompt a (parts ! 0) (parts ! 1) (parts ! 2) (parts ! 3) bugDescription)
              = QueryWithRequest (buildPrompt a (parts ! 0) (parts ! 1) (parts ! 2) (parts ! 3) bugDescription)"
      by simp
    with assms(2) show "AnalyzeSingleCommit a otherQuery commit bugDescription
                   = AnalyzeSingleCommit a QueryWithRequest commit bugDescription"
      by (rule same_reply_same_result)
  qed
  from e s r d show ?thesis by (intro conjI)
qed

theorem plain_text_not_found_witness:
  "extractPayload ''I could not tell.'' = None
   \<and> extractPayload ''Sorry'' = None
   \<and> scanMessages [[TextBlock ''I could not tell.'', OtherBlock], [TextBlock ''Sorry'']] = []
   \<and> AnalyzeSingleCommit \<lparr>systemPrompt = ''p'', folder = ''f''\<rparr>
        (\<lambda>prompt. Inr [[TextBlock ''I could not tell.'', OtherBlock], [TextBlock ''Sorry'']])
        ''0123456789abcdef|Ann|2024-05-01|fix parser'' ''crash on start'' = Inl NoJSONResponse"
proof -
  have plain: "\<forall>m \<in> set [[TextBlock ''I could not tell.'', OtherBlock], [TextBlock ''Sorry'']].
      \<forall>raw. TextBlock raw \<in> set m \<longrightarrow>
        CHR ''{'' \<notin> set raw \<and> CHR ''}'' \<notin> set raw \<and> \<not> sublist ''```json'' raw"
    by (auto simp: sublist_code)
  have parts: "[''0123456789abcdef'', ''Ann'', ''2024-05-01'', ''fix parser'']
          = Split ''0123456789abcdef|Ann|2024-05-01|fix parser'' CHR ''|''"
    by code_simp
  have len: "4 \<le> length [''0123456789abcdef'', ''Ann'', ''2024-05-01'', ''fix parser'']"
    "8 \<le> length ([''0123456789abcdef'', ''Ann'', ''2024-05-01'', ''fix parser''] ! 0)"
    by simp_all
  note t = plain_text_not_found[OF plain parts len,
      of "\<lambda>prompt. Inr [[TextBlock ''I could not tell.'', OtherBlock], [TextBlock ''Sorry'']]"
         "\<lparr>systemPrompt = ''p'', folder = ''f''\<rparr>" "''crash on start''", OF refl]
  from t have "\<forall>m \<in> set [[TextBlock ''I could not tell.'', OtherBlock], [TextBlock ''Sorry'']].
          \<forall>raw. TextBlock raw \<in> set m \<longrightarrow> extractPayload raw = None"
    by (rule conjunct1)
  then have "extractPayload ''I could not tell.'' = None" "extractPayload ''Sorry'' = None"
    by simp_all
  moreover from t have "scanMessages [[TextBlock ''I could not tell.'', OtherBlock], [TextBlock ''Sorry'']] = []"
    by (rule conjunct2[THEN conjunct1])
  moreover from t have "AnalyzeSingleCommit \<lparr>systemPrompt = ''p'', folder = ''f''\<rparr>
        (\<lambda>prompt. Inr [[TextBlock ''I could not tell.'', OtherBlock], [TextBlock ''Sorry'']])
        ''0123456789abcdef|Ann|2024-05-01|fix parser'' ''crash on start'' = Inl NoJSONResponse"
    by (rule conjunct2[THEN conjunct2, THEN conjunct1])
  ultimately show ?thesis by simp
qed

section \<open>The claims on the parsing of the payload\<close>











text \<open>
  C7 says that the confidence of every verdict of the extractor lies in 0 to 100, a value
  of the oracle outside this range being clamped into it or taken as 0, without a crash;
  the field \<^verbatim>\<open>Confidence\<close> carries the comment \<^verbatim>\<open>0-100\<close>. The code does not keep the
  confidence in this range: it stores the oracle's values 150 and -5 as they are. It
  does not panic on them.
\<close>

theorem confidence_outside_range_kept:
  \<open>AnalyzeSingleCommit \<lparr>systemPrompt = ''p'', folder = ''f''\<rparr>
      (\<lambda>prompt. Inr [[TextBlock ''{"is_likely": true, "confidence": 150}'']])
      ''0123456789abcdef|Ann|2024-05-01|fix parser'' ''crash on start''
     = Inr (zeroAnalysis\<lparr>IsLikely := True, Confidence := 150\<rparr>)
   \<and> AnalyzeSingleCommit \<lparr>systemPrompt = ''p'', folder = ''f''\<rparr>
      (\<lambda>prompt. Inr [[TextBlock ''{"is_likely": true, "confidence": -5}'']])
      ''0123456789abcdef|Ann|2024-05-01|fix parser'' ''crash on start''
     = Inr (zeroAnalysis\<lparr>IsLikely := True, Confidence := - 5\<rparr>)\<close>
  by code_simp

text \<open>
  C8 says that the splitter cuts the payload only at commas outside quoted strings and at
  nesting depth zero, so that a comma inside a quoted value never cuts a pair in two. The
  code takes a quote that follows a backslash as escaped, also when that backslash is
  itself escaped and the quote closes the string. After such a string the splitter is
  out of step with the quotes: here the payload is cut at the comma inside the quoted
  value \<open>Ann, Bob\<close> and not at the comma between the two pairs, and the author is lost.
\<close>

theorem comma_in_quoted_value_splits:
  \<open>splitJSONPairs (''"explanation": "in C:'' @ [backslash, backslash] @ ''", "author": "Ann, Bob"'')
     = [''"explanation": "in C:'' @ [backslash, backslash] @ ''", "author": "Ann'', ''Bob"'']
   \<and> Author (parseAnalysis (''{"explanation": "in C:'' @ [backslash, backslash] @ ''", "author": "Ann, Bob"}''))
     = []\<close>
  by code_simp

end
